theory Spec2Isabelle
  imports Main "HOL-Library.Word" "HOL-Library.AList" "HOL-Library.Signed_Division"
begin

unbundle bit_operations_syntax

section \<open>Common types\<close>

type_synonym byte = "8 word"

text \<open>Go's \<open>int64\<close>: a 64-bit word, read as two's complement with \<open>sint\<close>.\<close>

type_synonym int64 = "64 word"

text \<open>Values of Go's \<open>error\<close> interface that the modelled functions return.\<close>

datatype error = EOF | ErrUnexpectedEOF | Err string

text \<open>Run-time panics of the modelled functions.\<close>

datatype panic = IndexOutOfRange | SliceBoundsOutOfRange

section \<open>Packed timestamps\<close>

text \<open>
  \<open>binary.LittleEndian.PutUint64\<close> and \<open>binary.LittleEndian.Uint64\<close> of Go's
  \<open>encoding/binary\<close>: byte \<open>i\<close> of the encoding holds bits \<open>8 i .. 8 i + 7\<close>.
\<close>

definition PutUint64 :: "int64 \<Rightarrow> byte list" where
  "PutUint64 v =
     [ucast v, ucast (drop_bit 8 v), ucast (drop_bit 16 v), ucast (drop_bit 24 v),
      ucast (drop_bit 32 v), ucast (drop_bit 40 v), ucast (drop_bit 48 v), ucast (drop_bit 56 v)]"

definition Uint64 :: "byte list \<Rightarrow> int64" where
  "Uint64 b =
     ucast (b ! 0) OR push_bit 8 (ucast (b ! 1)) OR push_bit 16 (ucast (b ! 2))
       OR push_bit 24 (ucast (b ! 3)) OR push_bit 32 (ucast (b ! 4)) OR push_bit 40 (ucast (b ! 5))
       OR push_bit 48 (ucast (b ! 6)) OR push_bit 56 (ucast (b ! 7))"

text \<open>
  \<open>binary.Write(w, binary.LittleEndian, timestamp)\<close> on a \<open>bytes.Buffer\<close> holding \<open>buf\<close>:
  the eight bytes are appended; writing to a buffer returns no error.
\<close>

definition binary_Write :: "byte list \<Rightarrow> int64 \<Rightarrow> byte list \<times> error option" where
  "binary_Write buf v = (buf @ PutUint64 v, None)"

text \<open>
  \<open>binary.Read(r, binary.LittleEndian, &timestamp)\<close> on a \<open>bytes.Buffer\<close> holding \<open>buf\<close>:
  eight bytes are read with \<open>io.ReadFull\<close>, which gives \<open>io.EOF\<close> when nothing can be read
  and \<open>io.ErrUnexpectedEOF\<close> when fewer than eight bytes are there.
\<close>

definition binary_Read :: "byte list \<Rightarrow> error + int64" where
  "binary_Read buf =
     (if buf = [] then Inl EOF
      else if length buf < 8 then Inl ErrUnexpectedEOF
      else Inr (Uint64 (take 8 buf)))"

definition packTimestamp :: "byte list \<Rightarrow> int64 \<Rightarrow> byte list \<times> error option" where
  "packTimestamp b timestamp =
     (case binary_Write b timestamp of
        (w, Some err) \<Rightarrow> ([], Some err)
      | (w, None) \<Rightarrow> (w, None))"

text \<open>\<open>getTimestamp\<close> slices \<open>b[len(b)-8:]\<close>, which panics on fewer than eight bytes.\<close>

definition getTimestamp :: "byte list \<Rightarrow> panic + (int64 \<times> error option)" where
  "getTimestamp b =
     (if length b < 8 then Inl SliceBoundsOutOfRange
      else (case binary_Read (drop (length b - 8) b) of
              Inl err \<Rightarrow> Inr (0, Some err)
            | Inr timestamp \<Rightarrow> Inr (timestamp, None)))"

definition UnpackTimestamp :: "byte list \<Rightarrow> panic + (byte list \<times> int64 \<times> error option)" where
  "UnpackTimestamp b =
     (if 8 \<le> length b then
        (case getTimestamp b of
           Inl p \<Rightarrow> Inl p
         | Inr (timestamp, Some err) \<Rightarrow> Inr ([], 0, Some err)
         | Inr (timestamp, None) \<Rightarrow> Inr (take (length b - 8) b, timestamp, None))
      else Inr (b, 0, None))"

subsection \<open>ByteView\<close>

text \<open>
  Modelled from the spec: the \<open>ByteView\<close> type and its methods \<open>Len\<close>, \<open>SliceFrom\<close> and
  \<open>ByteSlice\<close> are not among the source files. The spec describes an immutable snapshot of a
  byte sequence that exposes its length, slicing that returns another ByteView, and
  materialization to an owned byte slice. The zero ByteView holds no bytes.
\<close>

datatype ByteView = ByteView (bytes_of: "byte list")

definition Len :: "ByteView \<Rightarrow> nat" where
  "Len v = length (bytes_of v)"

definition SliceFrom :: "ByteView \<Rightarrow> nat \<Rightarrow> ByteView" where
  "SliceFrom v from = ByteView (drop from (bytes_of v))"

definition ByteSlice :: "ByteView \<Rightarrow> byte list" where
  "ByteSlice v = bytes_of v"

definition getTimestampByteView :: "ByteView \<Rightarrow> int64 \<times> error option" where
  "getTimestampByteView bv =
     (let timestampByteView = (if 8 \<le> Len bv then SliceFrom bv (Len bv - 8) else ByteView [])
      in case binary_Read (ByteSlice timestampByteView) of
           Inl err \<Rightarrow> (0, Some err)
         | Inr timestamp \<Rightarrow> (timestamp, None))"

section \<open>Expiration\<close>

text \<open>
  The fields of \<open>Group\<close> that \<open>handleExpiration\<close> reads. A \<open>time.Duration\<close> is a 64-bit
  count of nanoseconds.
\<close>

record Group =
  expiration :: int64
  stalePeriod :: int64
  staleDeadline :: int64
  disableHotCache :: bool

text \<open>
  What \<open>handleExpiration\<close> calls and is not among the source files, taken as parameters:
  \<^item> \<open>Seconds\<close>: the conversion \<open>int64(d.Seconds())\<close> of a duration to whole seconds
    (\<open>Duration.Seconds\<close> computes in floating point);
  \<^item> \<open>NowUnixSeconds\<close>: the time provider behind \<open>GetTime()\<close>, which may consume state
    (the test provider reads a channel);
  \<^item> \<open>loadOnMiss\<close>: \<open>g.loadOnMiss(ctx, key, dest, fromExpiration)\<close>, returning the error, the
    sink and the group state it leaves;
  \<^item> \<open>setSinkView\<close>: \<open>setSinkView(dest, view)\<close>;
  \<^item> \<open>AllocatingByteSliceSink\<close>: a fresh sink over a new byte slice, and \<open>view\<close>: the view a
    sink holds.
\<close>

record ('ctx, 'sink, 'st) env =
  Seconds :: "int64 \<Rightarrow> int64"
  NowUnixSeconds :: "'st \<Rightarrow> int64 \<times> 'st"
  loadOnMiss :: "'ctx \<Rightarrow> string \<Rightarrow> 'sink \<Rightarrow> bool \<Rightarrow> 'st \<Rightarrow> error option \<times> 'sink \<times> 'st"
  setSinkView :: "'sink \<Rightarrow> ByteView \<Rightarrow> error option \<times> 'sink"
  AllocatingByteSliceSink :: "'sink"
  view :: "'sink \<Rightarrow> ByteView"

text \<open>
  In the stale period \<open>handleExpiration\<close> starts the reload in a goroutine and selects between
  its result and the deadline timer. Which of the two is ready first is the scheduler's choice,
  given here as an input.
\<close>

datatype race = BackgroundFirst | DeadlineFirst

definition GetTime :: "('ctx, 'sink, 'st) env \<Rightarrow> 'st \<Rightarrow> int64 \<times> 'st" where
  "GetTime e s = NowUnixSeconds e s"

text \<open>
  The offset that \<open>handleExpiration\<close> compares: \<open>age - int64(g.expiration.Seconds())\<close> with
  \<open>age = GetTime() - timestamp\<close>, in 64-bit arithmetic.
\<close>

definition expiredOffset :: "('ctx, 'sink, 'st) env \<Rightarrow> Group \<Rightarrow> int64 \<Rightarrow> int64 \<Rightarrow> int64" where
  "expiredOffset e g now timestamp = (now - timestamp) - Seconds e (expiration g)"

text \<open>
  \<open>handleExpiration\<close> returns the error, the destination sink and the group state. When the
  deadline wins the race the background reload still runs to its end: its effect on the state
  is kept and its result is dropped.
\<close>

definition handleExpiration ::
  "('ctx, 'sink, 'st) env \<Rightarrow> race \<Rightarrow> Group \<Rightarrow> 'ctx \<Rightarrow> string \<Rightarrow> 'sink \<Rightarrow> ByteView \<Rightarrow> 'st
     \<Rightarrow> error option \<times> 'sink \<times> 'st" where
  "handleExpiration e r g ctx key dest value s =
     (case getTimestampByteView value of
        (timestamp, Some err) \<Rightarrow> (Some err, dest, s)
      | (timestamp, None) \<Rightarrow>
          (case GetTime e s of
             (now, s1) \<Rightarrow>
               if sint (Seconds e (stalePeriod g)) \<le> sint (expiredOffset e g now timestamp)
               then loadOnMiss e ctx key dest True s1
               else if 0 \<le> sint (expiredOffset e g now timestamp)
               then (case loadOnMiss e ctx key (AllocatingByteSliceSink e) True s1 of
                       (bgErr, backgroundDest, s2) \<Rightarrow>
                         (case r of
                            BackgroundFirst \<Rightarrow>
                              (case bgErr of
                                 Some err \<Rightarrow> (Some err, dest, s2)
                               | None \<Rightarrow>
                                   (case setSinkView e dest (view e backgroundDest) of
                                      (res, dest') \<Rightarrow> (res, dest', s2)))
                          | DeadlineFirst \<Rightarrow>
                              (case setSinkView e dest value of
                                 (res, dest') \<Rightarrow> (res, dest', s2))))
               else (case setSinkView e dest value of
                       (res, dest') \<Rightarrow> (res, dest', s1))))"

text \<open>
  A concrete environment for evaluation: a clock that reads its state, a sink that holds the
  last view written, a reload that stores a fixed view, and durations truncated to seconds.
\<close>

definition testEnv :: "ByteView \<Rightarrow> (unit, ByteView option, int64) env" where
  "testEnv fresh =
     \<lparr> Seconds = (\<lambda>d. word_of_int (sint d sdiv 1000000000)),
       NowUnixSeconds = (\<lambda>s. (s, s)),
       loadOnMiss = (\<lambda>ctx key dest fromExpiration s. (None, Some fresh, s)),
       setSinkView = (\<lambda>dest v. (None, Some v)),
       AllocatingByteSliceSink = None,
       view = (\<lambda>sink. case sink of None \<Rightarrow> ByteView [] | Some v \<Rightarrow> v) \<rparr>"

section \<open>Consistent hashing\<close>

type_synonym Hash = "string \<Rightarrow> 32 word"

subsection \<open>Library functions the ring calls\<close>

text \<open>\<open>strconv.Itoa\<close>: the decimal digits of an integer, with a sign when negative.\<close>

fun decimal :: "nat \<Rightarrow> string" where
  "decimal n =
     (if n < 10 then [char_of (48 + n)]
      else decimal (n div 10) @ [char_of (48 + n mod 10)])"

definition Itoa :: "int \<Rightarrow> string" where
  "Itoa i = (if i < 0 then CHR ''-'' # decimal (nat (- i)) else decimal (nat i))"

text \<open>
  \<open>crc32.ChecksumIEEE\<close>, the default hash: the reflected CRC-32 with polynomial
  \<open>0xEDB88320\<close>, computed bit by bit.
\<close>

definition crc32_shift :: "32 word \<Rightarrow> 32 word" where
  "crc32_shift c = (if bit c 0 then drop_bit 1 c XOR 0xEDB88320 else drop_bit 1 c)"

definition crc32_byte :: "char \<Rightarrow> 32 word \<Rightarrow> 32 word" where
  "crc32_byte b c = (crc32_shift ^^ 8) (c XOR of_char b)"

definition ChecksumIEEE :: Hash where
  "ChecksumIEEE data = NOT (fold crc32_byte data (NOT 0))"

text \<open>\<open>bits.Len32\<close>: the number of bits needed to represent a value, 0 for 0.\<close>

fun bitlen :: "nat \<Rightarrow> nat" where
  "bitlen n = (if n = 0 then 0 else Suc (bitlen (n div 2)))"

definition Len32 :: "32 word \<Rightarrow> nat" where
  "Len32 x = bitlen (unat x)"

text \<open>
  \<open>sort.Search(n, f)\<close>: binary search for the smallest index in \<open>[0, n)\<close> at which \<open>f\<close>
  holds, \<open>n\<close> when there is none; \<open>f\<close> is called on indices below \<open>n\<close> only.
\<close>

function Search_loop :: "(nat \<Rightarrow> bool) \<Rightarrow> nat \<Rightarrow> nat \<Rightarrow> nat" where
  "Search_loop f i j =
     (if i < j then
        (if \<not> f ((i + j) div 2) then Search_loop f ((i + j) div 2 + 1) j
         else Search_loop f i ((i + j) div 2))
      else i)"
  by pat_completeness auto
termination
  by (relation "measure (\<lambda>(f, i, j). j - i)") auto

definition Search :: "nat \<Rightarrow> (nat \<Rightarrow> bool) \<Rightarrow> nat" where
  "Search n f = Search_loop f 0 n"

subsection \<open>The ring without a prefix table\<close>

text \<open>
  The fields every version of \<open>Map\<close> has. \<open>keys\<close> holds Go \<open>int\<close>s (64 bits wide), each the
  conversion of a \<open>uint32\<close> hash; \<open>hashMap\<close> is the Go map from hash to member name, kept as an
  association list with one entry per key, so that \<open>len(m.hashMap)\<close> is its length.
\<close>

record PlainMap =
  hash :: Hash
  replicas :: int
  keys :: "int list"
  hashMap :: "(int \<times> string) list"

text \<open>Reading a Go map at a missing key gives the zero value, the empty string.\<close>

definition hashMap_get :: "(int \<times> string) list \<Rightarrow> int \<Rightarrow> string" where
  "hashMap_get hm k = (case map_of hm k of None \<Rightarrow> [] | Some v \<Rightarrow> v)"

definition New_plain :: "int \<Rightarrow> Hash option \<Rightarrow> PlainMap" where
  "New_plain r fn =
     \<lparr> hash = (case fn of None \<Rightarrow> ChecksumIEEE | Some f \<Rightarrow> f),
       replicas = r, keys = [], hashMap = [] \<rparr>"

definition IsEmpty :: "'a PlainMap_scheme \<Rightarrow> bool" where
  "IsEmpty m = (length (keys m) = 0)"

text \<open>The body of the inner loop of \<open>Add\<close>: one virtual node of one member.\<close>

definition addReplica :: "string \<Rightarrow> int \<Rightarrow> 'a PlainMap_scheme \<Rightarrow> 'a PlainMap_scheme" where
  "addReplica key i m =
     (let h = uint (hash m (Itoa i @ key))
      in m\<lparr>keys := keys m @ [h], hashMap := AList.update h key (hashMap m)\<rparr>)"

definition addKey :: "string \<Rightarrow> 'a PlainMap_scheme \<Rightarrow> 'a PlainMap_scheme" where
  "addKey key m = fold (\<lambda>i. addReplica key (int i)) [0..<nat (replicas m)] m"

text \<open>\<open>Add\<close> of the version without a prefix table: insert the virtual nodes, sort the keys.\<close>

definition Add_plain :: "'a PlainMap_scheme \<Rightarrow> string list \<Rightarrow> 'a PlainMap_scheme" where
  "Add_plain m ks = (let m' = fold addKey ks m in m'\<lparr>keys := sort (keys m')\<rparr>)"

text \<open>\<open>getKeyFromHash\<close> reads \<open>m.keys[idx]\<close>, which panics on an empty ring.\<close>

definition getKeyFromHash :: "'a PlainMap_scheme \<Rightarrow> int \<Rightarrow> panic + int" where
  "getKeyFromHash m h =
     (let idx = Search (length (keys m)) (\<lambda>i. h \<le> keys m ! i);
          idx = (if idx = length (keys m) then 0 else idx)
      in if idx < length (keys m) then Inr (keys m ! idx) else Inl IndexOutOfRange)"

definition Get_plain :: "'a PlainMap_scheme \<Rightarrow> string \<Rightarrow> panic + string" where
  "Get_plain m key =
     (if IsEmpty m then Inr []
      else (case getKeyFromHash m (uint (hash m key)) of
              Inl p \<Rightarrow> Inl p
            | Inr hashKey \<Rightarrow> Inr (hashMap_get (hashMap m) hashKey)))"





subsection \<open>The ring with a prefix table\<close>

text \<open>
  The version with a table has the fields above and four more. Where the constructor takes
  the table expansion it is \<open>NewConsistentHash\<close> here, also when the source calls it \<open>New\<close>;
  the \<open>New\<close> of two arguments passes the default expansion. A nil hash function stands for
  \<open>crc32.ChecksumIEEE\<close>.
\<close>

record Map = PlainMap +
  prefixTableExpansion :: int
  prefixBits :: "32 word"
  prefixShift :: "32 word"
  prefixTable :: "string list"

definition defaultHashExpansion :: int where
  "defaultHashExpansion = 6"

definition NewConsistentHash :: "int \<Rightarrow> int \<Rightarrow> Hash option \<Rightarrow> Map" where
  "NewConsistentHash r tableExpansion fn =
     \<lparr> hash = (case fn of None \<Rightarrow> ChecksumIEEE | Some f \<Rightarrow> f),
       replicas = r, keys = [], hashMap = [],
       prefixTableExpansion = tableExpansion, prefixBits = 0, prefixShift = 0, prefixTable = [] \<rparr>"

definition New :: "int \<Rightarrow> Hash option \<Rightarrow> Map" where
  "New r fn = NewConsistentHash r defaultHashExpansion fn"

text \<open>
  The inner loop of the table build, \<open>for currentKeyPrefix == previousKeyPrefix\<close>, with the
  loop variables \<open>currentKeyIdx\<close> and \<open>currentKeyPrefix\<close>. Nothing in the loop itself bounds
  the number of rounds, so not returning is the value \<open>None\<close>.
\<close>

partial_function (option) walk :: "int list \<Rightarrow> nat \<Rightarrow> int \<Rightarrow> int \<Rightarrow> nat \<Rightarrow> int \<Rightarrow> (nat \<times> int) option" where
  "walk ks shift prefixTableSize previousKeyPrefix currentKeyIdx currentKeyPrefix =
     (if currentKeyPrefix = previousKeyPrefix then
        (if currentKeyIdx + 1 < length ks
         then walk ks shift prefixTableSize previousKeyPrefix (currentKeyIdx + 1)
                (drop_bit shift (ks ! (currentKeyIdx + 1)))
         else walk ks shift prefixTableSize previousKeyPrefix 0 (prefixTableSize + 1))
      else Some (currentKeyIdx, currentKeyPrefix))"

text \<open>
  The loop variables of the table build: \<open>previousKeyPrefix\<close>, \<open>currentKeyIdx\<close>,
  \<open>currentKeyPrefix\<close> and the table.
\<close>

type_synonym buildState = "int \<times> nat \<times> int \<times> string list"

text \<open>One round of \<open>for i := range m.prefixTable\<close>.\<close>

definition tableStep :: "Map \<Rightarrow> int \<Rightarrow> nat \<Rightarrow> buildState \<Rightarrow> (panic + buildState) option" where
  "tableStep m prefixTableSize i st =
     (case st of (previousKeyPrefix, currentKeyIdx, currentKeyPrefix, table) \<Rightarrow>
        if previousKeyPrefix < int i \<and> int i < currentKeyPrefix then
          (if currentKeyIdx < length (keys m)
           then Some (Inr (previousKeyPrefix, currentKeyIdx, currentKeyPrefix,
                  table[i := hashMap_get (hashMap m) (keys m ! currentKeyIdx)]))
           else Some (Inl IndexOutOfRange))
        else
          (case walk (keys m) (unat (prefixShift m)) prefixTableSize
                  currentKeyPrefix currentKeyIdx currentKeyPrefix of
             None \<Rightarrow> None
           | Some (currentKeyIdx', currentKeyPrefix') \<Rightarrow>
               Some (Inr (currentKeyPrefix, currentKeyIdx', currentKeyPrefix', table))))"

fun tableLoop :: "Map \<Rightarrow> int \<Rightarrow> nat list \<Rightarrow> buildState \<Rightarrow> (panic + buildState) option" where
  "tableLoop m prefixTableSize [] st = Some (Inr st)"
| "tableLoop m prefixTableSize (i # is) st =
     (case tableStep m prefixTableSize i st of
        None \<Rightarrow> None
      | Some (Inl p) \<Rightarrow> Some (Inl p)
      | Some (Inr st') \<Rightarrow> tableLoop m prefixTableSize is st')"

text \<open>
  \<open>Add\<close> in three phases. First the virtual nodes are inserted and sorted, as in the version
  without a table. Then \<open>sizeTable\<close> computes \<open>prefixBits\<close> and \<open>prefixShift\<close> and allocates
  the table of \<open>1 << prefixBits\<close> empty strings. Last \<open>fillTable\<close> reads \<open>m.keys[0]\<close>, which
  panics on an empty ring, and runs the loop over the table. The result is \<open>None\<close> when the
  build does not return, \<open>Some (Inl p)\<close> when it panics and \<open>Some (Inr m')\<close> when it returns
  the ring \<open>m'\<close>.
\<close>

definition sizeTable :: "Map \<Rightarrow> Map" where
  "sizeTable m =
     (let pb = (word_of_nat (Len32 (word_of_int (int (length (keys m)) * prefixTableExpansion m)))
                  :: 32 word)
      in m\<lparr>prefixBits := pb, prefixShift := 32 - pb,
            prefixTable := replicate (nat (push_bit (unat pb) (1 :: int))) []\<rparr>)"

definition fillTable :: "Map \<Rightarrow> (panic + Map) option" where
  "fillTable m =
     (let prefixTableSize = push_bit (unat (prefixBits m)) (1 :: int)
      in case keys m of
           [] \<Rightarrow> Some (Inl IndexOutOfRange)
         | k0 # _ \<Rightarrow>
             (case tableLoop m prefixTableSize [0..<length (prefixTable m)]
                     (- 1, 0, drop_bit (unat (prefixShift m)) k0, prefixTable m) of
                None \<Rightarrow> None
              | Some (Inl p) \<Rightarrow> Some (Inl p)
              | Some (Inr (previousKeyPrefix, currentKeyIdx, currentKeyPrefix, table)) \<Rightarrow>
                  Some (Inr (m\<lparr>prefixTable := table\<rparr>))))"

definition Add :: "Map \<Rightarrow> string list \<Rightarrow> (panic + Map) option" where
  "Add m ks = fillTable (sizeTable (Add_plain m ks))"

definition Get :: "Map \<Rightarrow> string \<Rightarrow> panic + string" where
  "Get m key =
     (if IsEmpty m then Inr []
      else
        (let h = uint (hash m key);
             prefixSlot = drop_bit (unat (prefixShift m)) h
         in if prefixSlot < 0 \<or> int (length (prefixTable m)) \<le> prefixSlot then Inl IndexOutOfRange
            else
              (let tableResult = prefixTable m ! nat prefixSlot
               in if 0 < length tableResult then Inr tableResult
                  else
                    (let idx = Search (length (keys m)) (\<lambda>i. h \<le> keys m ! i);
                         idx = (if idx = length (keys m) then 0 else idx)
                     in Inr (hashMap_get (hashMap m) (keys m ! idx))))))"

section \<open>The gRPC peer pool\<close>

text \<open>
  Of a \<open>getter\<close> the pool's picker uses the address only; the dial function, the mutex and
  the connection play no part in choosing a peer.
\<close>

record getter =
  hostAndPort :: string

record Pool =
  self :: string
  peers :: Map
  getters :: "string \<rightharpoonup> getter"

definition NewPoolOpts :: "string \<Rightarrow> int \<Rightarrow> Hash option \<Rightarrow> Pool" where
  "NewPoolOpts self' replicas' hashFn =
     \<lparr> self = self', peers = New replicas' hashFn, getters = Map.empty \<rparr>"

definition Set :: "Pool \<Rightarrow> string list \<Rightarrow> (panic + Pool) option" where
  "Set g ps =
     (case Add (peers g) ps of
        None \<Rightarrow> None
      | Some (Inl p) \<Rightarrow> Some (Inl p)
      | Some (Inr m') \<Rightarrow>
          Some (Inr (g\<lparr>peers := m',
                       getters := fold (\<lambda>peer gs. gs(peer \<mapsto> \<lparr>hostAndPort = peer\<rparr>)) ps Map.empty\<rparr>)))"

text \<open>\<open>PickPeer\<close> returns the getter, \<open>None\<close> for Go's \<open>nil\<close>, and the flag.\<close>

definition PickPeer :: "Pool \<Rightarrow> string \<Rightarrow> panic + (getter option \<times> bool)" where
  "PickPeer g key =
     (if IsEmpty (peers g) then Inr (None, False)
      else (case Get (peers g) key of
              Inl p \<Rightarrow> Inl p
            | Inr peer \<Rightarrow>
                if peer \<noteq> self g then Inr (getters g peer, True) else Inr (None, False)))"

section \<open>Notions used in the proofs\<close>

text \<open>
  The number of keys at the front of \<open>ks\<close> whose prefix, the key shifted right by \<open>s\<close>, is
  below \<open>i\<close>. In a sorted slice these are all the keys with such a prefix.
\<close>

definition cnt :: "nat \<Rightarrow> int list \<Rightarrow> nat \<Rightarrow> nat" where
  "cnt s ks i = length (takeWhile (\<lambda>k. drop_bit s k < int i) ks)"

text \<open>
  The values of \<open>currentKeyIdx\<close> and \<open>currentKeyPrefix\<close> when round \<open>i\<close> of the table loop
  begins: the first key whose prefix is not below \<open>i\<close>, or index 0 and the prefix
  \<open>prefixTableSize + 1\<close> once the keys are used up.
\<close>

definition idxAt :: "nat \<Rightarrow> int list \<Rightarrow> nat \<Rightarrow> nat" where
  "idxAt s ks i = (if cnt s ks i < length ks then cnt s ks i else 0)"

definition curAt :: "nat \<Rightarrow> int \<Rightarrow> int list \<Rightarrow> nat \<Rightarrow> int" where
  "curAt s N ks i = (if cnt s ks i < length ks then drop_bit s (ks ! cnt s ks i) else N + 1)"

text \<open>
  What the table build leaves in slot \<open>i\<close>.
\<close>

definition slotVal :: "Map \<Rightarrow> int \<Rightarrow> nat \<Rightarrow> string" where
  "slotVal m N i =
     (if int i < curAt (unat (prefixShift m)) N (keys m) i
      then hashMap_get (hashMap m) (keys m ! idxAt (unat (prefixShift m)) (keys m) i)
      else [])"

text \<open>
  The invariant of the table loop at the start of round \<open>i\<close>.
\<close>

definition buildInv :: "Map \<Rightarrow> int \<Rightarrow> nat \<Rightarrow> buildState \<Rightarrow> bool" where
  "buildInv m N i st =
     (case st of (prev, idx, cur, tbl) \<Rightarrow>
        prev < int i \<and> idx = idxAt (unat (prefixShift m)) (keys m) i \<and>
        cur = curAt (unat (prefixShift m)) N (keys m) i \<and> length tbl = nat N \<and>
        (\<forall>j<nat N. tbl ! j = (if j < i then slotVal m N j else [])))"

text \<open>
  Every key of a ring is the conversion of a \<open>uint32\<close>.
\<close>

definition ring_ok :: "'a PlainMap_scheme \<Rightarrow> bool" where
  "ring_ok m = (\<forall>k\<in>set (keys m). 0 \<le> k \<and> k < 2 ^ 32)"

text \<open>
  The hashes of the virtual nodes of a member: \<open>hash(strconv.Itoa(i) + key)\<close> for
  \<open>i\<close> below \<open>replicas\<close>.
\<close>

definition virtualNodes :: "Hash \<Rightarrow> int \<Rightarrow> string \<Rightarrow> int list" where
  "virtualNodes h r key = map (\<lambda>i. uint (h (Itoa (int i) @ key))) [0..<nat r]"

text \<open>
  A non-empty ring whose table is the one \<open>Add\<close> builds for its keys.
\<close>

definition table_ok :: "Map \<Rightarrow> bool" where
  "table_ok m =
     (sorted (keys m) \<and> ring_ok m \<and> keys m \<noteq> [] \<and> unat (prefixShift m) \<le> 32 \<and>
      unat (prefixShift m) = 32 - unat (prefixBits m) \<and>
      length (prefixTable m) = 2 ^ (32 - unat (prefixShift m)) \<and>
      (\<forall>j<length (prefixTable m).
         prefixTable m ! j = slotVal m (int (length (prefixTable m))) j))"

text \<open>
  The rings a program can hold: a new ring, and the ring every returning \<open>Add\<close> leaves.
\<close>

inductive built :: "Map \<Rightarrow> bool" where
  built_New: "built (NewConsistentHash r e fn)"
| built_Add: "built m \<Longrightarrow> Add m ks = Some (Inr m') \<Longrightarrow> built m'"

text \<open>
  The index of the first key that is not below \<open>h\<close>, or 0 when every key is below \<open>h\<close>.
\<close>

definition ringIndex :: "int list \<Rightarrow> int \<Rightarrow> nat" where
  "ringIndex ks h =
     (let r = length (takeWhile (\<lambda>k. k < h) ks) in if r = length ks then 0 else r)"

text \<open>
  The entries that \<open>Add\<close> writes to \<open>hashMap\<close> for one member, in the order of the writes.
\<close>

definition virtualPairs :: "Hash \<Rightarrow> int \<Rightarrow> string \<Rightarrow> (int \<times> string) list" where
  "virtualPairs h r key = map (\<lambda>i. (uint (h (Itoa (int i) @ key)), key)) [0..<nat r]"

text \<open>
  A sequence of writes to a Go map.
\<close>

definition updateAll :: "(int \<times> string) list \<Rightarrow> (int \<times> string) list \<Rightarrow> (int \<times> string) list" where
  "updateAll ps al = fold (\<lambda>p. AList.update (fst p) (snd p)) ps al"

text \<open>
  A ring with a table and a ring without, made by the same calls: \<open>New\<close> with the same
  replica count and hash function, then \<open>Add\<close> with the same names, each returning.
\<close>

inductive built_both :: "Map \<Rightarrow> PlainMap \<Rightarrow> bool" where
  both_New: "built_both (NewConsistentHash r e fn) (New_plain r fn)"
| both_Add: "built_both m p \<Longrightarrow> Add m ks = Some (Inr m') \<Longrightarrow> built_both m' (Add_plain p ks)"

text \<open>
  A sequence of \<open>Add\<close> calls on one ring; it stops at the first call that does not return.
\<close>

fun AddAll :: "Map \<Rightarrow> string list list \<Rightarrow> (panic + Map) option" where
  "AddAll m [] = Some (Inr m)"
| "AddAll m (ks # calls) =
     (case Add m ks of
        None \<Rightarrow> None
      | Some (Inl p) \<Rightarrow> Some (Inl p)
      | Some (Inr m') \<Rightarrow> AddAll m' calls)"

text \<open>
  No virtual node of one member has the hash of a virtual node of another member.
\<close>

definition collisionFree :: "Hash \<Rightarrow> int \<Rightarrow> string set \<Rightarrow> bool" where
  "collisionFree h r S =
     (\<forall>a\<in>S. \<forall>b\<in>S. a \<noteq> b \<longrightarrow> set (virtualNodes h r a) \<inter> set (virtualNodes h r b) = {})"

text \<open>
  The keys of the ring are the virtual nodes of the members \<open>S\<close>, and \<open>hashMap\<close> sends each
  key to a member that has it as a virtual node.
\<close>

definition owned :: "string set \<Rightarrow> Map \<Rightarrow> bool" where
  "owned S m =
     (set (keys m) = (\<Union>a\<in>S. set (virtualNodes (hash m) (replicas m) a)) \<and>
      (\<forall>k\<in>set (keys m). \<exists>a\<in>S. k \<in> set (virtualNodes (hash m) (replicas m) a) \<and>
           map_of (hashMap m) k = Some a))"

text \<open>
  The hash function of the repository's tests: the number that the decimal digits of the key
  spell, as \<open>strconv.Atoi\<close> reads it (the tests use digit strings only).
\<close>

definition atoiHash :: Hash where
  "atoiHash s = fold (\<lambda>c acc. acc * 10 + (of_char c - 48)) s 0"

text \<open>
  Whether a call returned, and what it returned.
\<close>

definition returns :: "(panic + 'a) option \<Rightarrow> bool" where
  "returns r = (case r of Some (Inr x) \<Rightarrow> True | _ \<Rightarrow> False)"

definition result :: "(panic + 'a) option \<Rightarrow> 'a" where
  "result r = projr (the r)"

text \<open>
  Pools for evaluation: a new pool at address \<open>me\<close> with one replica per member and the
  default hash, as \<open>NewPoolOpts(me, WithReplicas(1))\<close> makes it; the pool after
  \<open>Set("a", "b")\<close>; and the pool after \<open>Set("b")\<close> on top of it.
\<close>

definition pool0 :: "string \<Rightarrow> Pool" where
  "pool0 me = NewPoolOpts me 1 None"

definition pool1 :: "string \<Rightarrow> Pool" where
  "pool1 me = result (Set (pool0 me) [''a'', ''b''])"

definition pool2 :: "string \<Rightarrow> Pool" where
  "pool2 me = result (Set (pool1 me) [''b''])"

text \<open>
  The ring of \<open>TestHashing\<close>: three replicas, members 6, 4 and 2, whose virtual nodes hash to
  2, 4, 6, 12, 14, 16, 22, 24 and 26; the same ring without a table; and a ring with the
  single member 6.
\<close>

definition testRing :: Map where
  "testRing = result (Add (NewConsistentHash 3 6 (Some atoiHash)) [''6'', ''4'', ''2''])"

definition testPlain :: PlainMap where
  "testPlain = Add_plain (New_plain 3 (Some atoiHash)) [''6'', ''4'', ''2'']"

definition oneMemberRing :: Map where
  "oneMemberRing = result (Add (NewConsistentHash 3 6 (Some atoiHash)) [''6''])"

text \<open>
  The slot rule in the words of the specification: the members of all virtual-node hashes
  whose top bits equal \<open>i\<close>, followed by the member of the hash that succeeds them on the
  ring; the slot holds that member when they are all the same, the empty string otherwise.
\<close>

definition slotMembers :: "Map \<Rightarrow> nat \<Rightarrow> string list" where
  "slotMembers m i =
     (let s = unat (prefixShift m);
          inSlot = filter (\<lambda>k. drop_bit s k = int i) (keys m);
          succeeding = (case find (\<lambda>k. int i < drop_bit s k) (keys m) of
                          None \<Rightarrow> take 1 (keys m)
                        | Some k \<Rightarrow> [k])
      in map (hashMap_get (hashMap m)) (inSlot @ succeeding))"

definition slot_as_claimed :: "Map \<Rightarrow> nat \<Rightarrow> string" where
  "slot_as_claimed m i =
     (case slotMembers m i of
        [] \<Rightarrow> []
      | a # as \<Rightarrow> if list_all (\<lambda>b. b = a) as then a else [])"

text \<open>
  Rings for evaluation: the members 6, 4, 2 added in one call and in two calls in another
  order; and the members 1 and 01, whose virtual nodes 01 and 001 both hash to 1, added in
  both orders.
\<close>

definition ringA :: Map where
  "ringA = result (AddAll (NewConsistentHash 3 6 (Some atoiHash)) [[''6'', ''4'', ''2'']])"

definition ringB :: Map where
  "ringB = result (AddAll (NewConsistentHash 3 6 (Some atoiHash)) [[''2''], [''4'', ''6'']])"

definition ringX :: Map where
  "ringX = result (AddAll (NewConsistentHash 1 6 (Some atoiHash)) [[''1'', ''01'']])"

definition ringY :: Map where
  "ringY = result (AddAll (NewConsistentHash 1 6 (Some atoiHash)) [[''01'', ''1'']])"







section \<open>Packed timestamps: round trip\<close>

lemma bit_chunk:
  "bit (push_bit k (ucast (ucast (drop_bit k v :: 64 word) :: 8 word) :: 64 word)) n
     \<longleftrightarrow> k \<le> n \<and> n < k + 8 \<and> n < 64 \<and> bit v n"
  by (auto simp: bit_simps)

lemma bit_chunk0:
  "bit (ucast (ucast (v :: 64 word) :: 8 word) :: 64 word) n \<longleftrightarrow> n < 8 \<and> bit v n"
  by (auto simp: bit_simps)

lemma Uint64_PutUint64: "Uint64 (PutUint64 v) = v"
proof (rule bit_word_eqI)
  fix n assume "n < LENGTH(64)"
  then have n: "n < 64" by simp
  have "bit (Uint64 (PutUint64 v)) n \<longleftrightarrow> n < 64 \<and> bit v n"
    unfolding Uint64_def PutUint64_def
    by (simp only: bit_or_iff bit_chunk bit_chunk0 nth_Cons_0 nth_Cons_numeral nth_Cons_Suc
          numeral_nat One_nat_def diff_Suc_1) arith
  with n show "bit (Uint64 (PutUint64 v)) n = bit v n" by simp
qed

lemma length_PutUint64: "length (PutUint64 v) = 8"
  by (simp add: PutUint64_def)

text \<open>
  Claim C5. For every byte slice \<open>b\<close> and every timestamp \<open>t\<close>, packing appends the eight
  little-endian bytes of \<open>t\<close> without error, and \<open>UnpackTimestamp\<close> of the packed slice
  returns \<open>b\<close>, \<open>t\<close> and no error.
\<close>

theorem pack_unpack_roundtrip:
  "packTimestamp b t = (b @ PutUint64 t, None) \<and>
   UnpackTimestamp (fst (packTimestamp b t)) = Inr (b, t, None)"
proof -
  have ne: "PutUint64 t \<noteq> []"
    using length_PutUint64 [of t] by auto
  show ?thesis
    by (simp add: packTimestamp_def binary_Write_def UnpackTimestamp_def getTimestamp_def
          binary_Read_def length_PutUint64 Uint64_PutUint64 ne)
qed

section \<open>Expiration handling\<close>

lemma getTimestampByteView_short:
  "Len value < 8 \<Longrightarrow> getTimestampByteView value = (0, Some EOF)"
  by (simp add: getTimestampByteView_def binary_Read_def ByteSlice_def)

lemma getTimestampByteView_long:
  "8 \<le> Len value \<Longrightarrow>
   getTimestampByteView value = (Uint64 (drop (Len value - 8) (bytes_of value)), None)"
proof -
  assume len: "8 \<le> Len value"
  let ?t = "drop (Len value - 8) (bytes_of value)"
  from len have l8: "length ?t = 8"
    by (simp add: Len_def)
  then have ne: "?t \<noteq> []"
    by auto
  from l8 have tk: "take 8 ?t = ?t"
    by simp
  show ?thesis
    using len l8 ne tk
    by (simp add: getTimestampByteView_def binary_Read_def ByteSlice_def SliceFrom_def)
qed

text \<open>
  Claim C8. When the cached value is shorter than eight bytes, so that it holds no timestamp
  suffix, \<open>getTimestampByteView\<close> fails with the decode error, and \<open>handleExpiration\<close>
  returns that error, leaves the destination sink as it was, and changes no state.
\<close>

theorem handleExpiration_decode_error:
  "Len value < 8 \<Longrightarrow>
   getTimestampByteView value = (0, Some EOF) \<and>
   handleExpiration e r g ctx key dest value s = (Some EOF, dest, s)"
  by (simp add: handleExpiration_def getTimestampByteView_short)

text \<open>A three-byte value in the test environment.\<close>

theorem handleExpiration_decode_error_witness:
  "Len (ByteView [1, 2, 3]) < 8 \<and>
   getTimestampByteView (ByteView [1, 2, 3]) = (0, Some EOF) \<and>
   handleExpiration (testEnv (ByteView [])) DeadlineFirst
       \<lparr>expiration = 300000000000, stalePeriod = 0, staleDeadline = 0, disableHotCache = False\<rparr>
       () ''k'' None (ByteView [1, 2, 3]) 400 = (Some EOF, None, 400)"
  using handleExpiration_decode_error [of "ByteView [1, 2, 3]" "testEnv (ByteView [])" DeadlineFirst
       "\<lparr>expiration = 300000000000, stalePeriod = 0, staleDeadline = 0, disableHotCache = False\<rparr>"
       "()" "''k''" None 400]
  by (simp add: Len_def)

text \<open>
  Claim C3, amended. For a cached value that carries a timestamp suffix, with \<open>now\<close> read from
  the clock and the offset \<open>now - timestamp - expiration\<close> computed in 64-bit arithmetic:
  when the offset is negative and below the stale period, \<open>handleExpiration\<close> hands the cached
  value, unchanged, to the sink; when the offset is at least the stale period, it returns what
  the synchronous reload \<open>loadOnMiss(ctx, key, dest, true)\<close> returns, whatever \<open>setSinkView\<close>
  would do.
\<close>

theorem handleExpiration_serve_or_reload:
  assumes "8 \<le> Len value" and "GetTime e s = (now, s1)"
  shows "(sint (expiredOffset e g now (fst (getTimestampByteView value))) < 0 \<and>
          sint (expiredOffset e g now (fst (getTimestampByteView value)))
            < sint (Seconds e (stalePeriod g))
            \<longrightarrow> handleExpiration e r g ctx key dest value s =
                  (fst (setSinkView e dest value), snd (setSinkView e dest value), s1))
       \<and> (sint (Seconds e (stalePeriod g))
            \<le> sint (expiredOffset e g now (fst (getTimestampByteView value)))
            \<longrightarrow> handleExpiration e r g ctx key dest value s = loadOnMiss e ctx key dest True s1)"
  using assms
  by (simp add: handleExpiration_def getTimestampByteView_long split: prod.splits)

text \<open>Evaluation in the test environment.\<close>

lemma view_timestamp:
  "getTimestampByteView (ByteView (x # PutUint64 t)) = (t, None)"
  by (simp add: getTimestampByteView_long Len_def length_PutUint64 Uint64_PutUint64)

lemma testEnv_simps:
  "Seconds (testEnv fresh) d = word_of_int (sint d sdiv 1000000000)"
  "NowUnixSeconds (testEnv fresh) s = (s, s)"
  "loadOnMiss (testEnv fresh) ctx key dest b s = (None, Some fresh, s)"
  "setSinkView (testEnv fresh) dest v = (None, Some v)"
  by (simp_all add: testEnv_def)

text \<open>
  The test of the repository: expiration 300 s, a value stamped 100. At 399 the cached value
  is served; at 400 the reload is served.
\<close>

theorem handleExpiration_serve_or_reload_witness:
  "handleExpiration (testEnv (ByteView (2 # PutUint64 401))) DeadlineFirst
       \<lparr>expiration = 300000000000, stalePeriod = 0, staleDeadline = 0, disableHotCache = False\<rparr>
       () ''k'' None (ByteView (1 # PutUint64 100)) 399
     = (None, Some (ByteView (1 # PutUint64 100)), 399)
   \<and> handleExpiration (testEnv (ByteView (2 # PutUint64 401))) DeadlineFirst
       \<lparr>expiration = 300000000000, stalePeriod = 0, staleDeadline = 0, disableHotCache = False\<rparr>
       () ''k'' None (ByteView (1 # PutUint64 100)) 400
     = (None, Some (ByteView (2 # PutUint64 401)), 400)"
  using handleExpiration_serve_or_reload [of "ByteView (1 # PutUint64 100)"
       "testEnv (ByteView (2 # PutUint64 401))" 399 399 399
       "\<lparr>expiration = 300000000000, stalePeriod = 0, staleDeadline = 0, disableHotCache = False\<rparr>"
       DeadlineFirst "()" "''k''" None]
     handleExpiration_serve_or_reload [of "ByteView (1 # PutUint64 100)"
       "testEnv (ByteView (2 # PutUint64 401))" 400 400 400
       "\<lparr>expiration = 300000000000, stalePeriod = 0, staleDeadline = 0, disableHotCache = False\<rparr>"
       DeadlineFirst "()" "''k''" None]
  by (simp add: view_timestamp testEnv_simps GetTime_def expiredOffset_def Len_def length_PutUint64
        signed_divide_int_def)

text \<open>
  Claim C3 as stated fails for a negative stale period: with expiration 300 s and stale period
  -1 s, a value stamped 100 and read at 399 has offset -1, which is negative, and yet the
  reload is served and not the cached value, since the comparison with the stale period comes
  first.
\<close>

theorem handleExpiration_negative_stale_counterexample:
  "sint (expiredOffset (testEnv (ByteView (2 # PutUint64 401)))
       \<lparr>expiration = 300000000000, stalePeriod = - 1000000000, staleDeadline = 0,
         disableHotCache = False\<rparr> 399 100) < 0
   \<and> getTimestampByteView (ByteView (1 # PutUint64 100)) = (100, None)
   \<and> handleExpiration (testEnv (ByteView (2 # PutUint64 401))) DeadlineFirst
       \<lparr>expiration = 300000000000, stalePeriod = - 1000000000, staleDeadline = 0,
         disableHotCache = False\<rparr>
       () ''k'' None (ByteView (1 # PutUint64 100)) 399
     = (None, Some (ByteView (2 # PutUint64 401)), 399)
   \<and> ByteView (2 # PutUint64 401) \<noteq> ByteView (1 # PutUint64 100)"
  by (simp add: handleExpiration_def view_timestamp testEnv_simps GetTime_def expiredOffset_def
        signed_divide_int_def)

section \<open>Binary search\<close>

declare Search_loop.simps [simp del]

lemma Search_loop_spec:
  "(\<forall>a b. a \<le> b \<and> b < n \<and> f a \<longrightarrow> f b) \<Longrightarrow> i \<le> j \<Longrightarrow> j \<le> n \<Longrightarrow>
   (\<forall>k<i. \<not> f k) \<Longrightarrow> (\<forall>k. j \<le> k \<and> k < n \<longrightarrow> f k) \<Longrightarrow>
   Search_loop f i j \<le> n \<and> (\<forall>k<Search_loop f i j. \<not> f k) \<and>
   (\<forall>k. Search_loop f i j \<le> k \<and> k < n \<longrightarrow> f k)"
proof (induction f i j rule: Search_loop.induct)
  case (1 f i j)
  show ?case
  proof (cases "i < j")
    case False
    then have eq: "Search_loop f i j = i"
      by (subst Search_loop.simps) simp
    from False "1.prems"(2) have "i = j" by simp
    with "1.prems" show ?thesis
      unfolding eq by simp
  next
    case True
    let ?h = "(i + j) div 2"
    from True have h: "i \<le> ?h" "?h < j" by auto
    show ?thesis
    proof (cases "f ?h")
      case False
      have below: "\<forall>k<?h + 1. \<not> f k"
      proof (intro allI impI)
        fix k assume "k < ?h + 1"
        then have "k \<le> ?h" by simp
        moreover have "?h < n" using h "1.prems"(3) by simp
        ultimately show "\<not> f k"
          using "1.prems"(1) False by blast
      qed
      have "Search_loop f i j = Search_loop f (?h + 1) j"
        using True False by (subst Search_loop.simps) simp
      moreover have "Search_loop f (?h + 1) j \<le> n \<and> (\<forall>k<Search_loop f (?h + 1) j. \<not> f k) \<and>
         (\<forall>k. Search_loop f (?h + 1) j \<le> k \<and> k < n \<longrightarrow> f k)"
      proof (rule "1.IH"(1) [OF True False "1.prems"(1)])
        show "?h + 1 \<le> j" using h by simp
        show "j \<le> n" by (rule "1.prems"(3))
        show "\<forall>k<?h + 1. \<not> f k" by (rule below)
        show "\<forall>k. j \<le> k \<and> k < n \<longrightarrow> f k" by (rule "1.prems"(5))
      qed
      ultimately show ?thesis by simp
    next
      case fh: True
      have above: "\<forall>k. ?h \<le> k \<and> k < n \<longrightarrow> f k"
        using "1.prems"(1) fh by blast
      have "Search_loop f i j = Search_loop f i ?h"
        using True fh by (subst Search_loop.simps) simp
      moreover have "Search_loop f i ?h \<le> n \<and> (\<forall>k<Search_loop f i ?h. \<not> f k) \<and>
         (\<forall>k. Search_loop f i ?h \<le> k \<and> k < n \<longrightarrow> f k)"
      proof (rule "1.IH"(2) [OF True _ "1.prems"(1)])
        show "\<not> \<not> f ?h" using fh by simp
        show "i \<le> ?h" by (rule h(1))
        show "?h \<le> n" using h "1.prems"(3) by simp
        show "\<forall>k<i. \<not> f k" by (rule "1.prems"(4))
        show "\<forall>k. ?h \<le> k \<and> k < n \<longrightarrow> f k" by (rule above)
      qed
      ultimately show ?thesis by simp
    qed
  qed
qed

lemma Search_sorted:
  assumes "sorted (ks :: int list)"
  shows "Search (length ks) (\<lambda>i. h \<le> ks ! i) = length (takeWhile (\<lambda>k. k < h) ks)"
proof -
  let ?f = "\<lambda>i. h \<le> ks ! i"
  let ?r = "Search_loop ?f 0 (length ks)"
  have mono: "\<forall>a b. a \<le> b \<and> b < length ks \<and> ?f a \<longrightarrow> ?f b"
  proof (intro allI impI)
    fix a b assume ab: "a \<le> b \<and> b < length ks \<and> h \<le> ks ! a"
    then have "ks ! a \<le> ks ! b"
      using sorted_nth_mono [OF assms, of a b] by blast
    with ab show "h \<le> ks ! b" by (blast intro: order_trans)
  qed
  have spec: "?r \<le> length ks \<and> (\<forall>k<?r. \<not> ?f k) \<and> (\<forall>k. ?r \<le> k \<and> k < length ks \<longrightarrow> ?f k)"
    by (rule Search_loop_spec [OF mono]) simp_all
  then have r_le: "?r \<le> length ks"
    and below: "\<And>k. k < ?r \<Longrightarrow> \<not> h \<le> ks ! k"
    and above: "\<And>k. ?r \<le> k \<Longrightarrow> k < length ks \<Longrightarrow> h \<le> ks ! k"
    by blast+
  have "takeWhile (\<lambda>k. k < h) ks = take ?r ks"
  proof (rule takeWhile_eq_take_P_nth)
    fix i assume "i < ?r" "i < length ks"
    then show "ks ! i < h" using below [of i] by (simp only: not_le)
  next
    assume "?r < length ks"
    then show "\<not> ks ! ?r < h" using above [of ?r] by (simp only: not_less order_refl)
  qed
  then have "length (takeWhile (\<lambda>k. k < h) ks) = min (length ks) ?r"
    by (simp only: length_take)
  also have "\<dots> = ?r"
    using r_le by (rule min_absorb2)
  finally show ?thesis
    by (simp only: Search_def)
qed

section \<open>Building the prefix table\<close>

subsection \<open>Counting keys by prefix, and the inner loop\<close>

lemma drop_bit_int_mono: "(a::int) \<le> b \<Longrightarrow> drop_bit s a \<le> drop_bit s b"
  by (simp add: drop_bit_eq_div zdiv_mono1)

lemma cnt_le: "cnt s ks i \<le> length ks"
  by (simp add: cnt_def length_takeWhile_le)

lemma cnt_below: "j < cnt s ks i \<Longrightarrow> drop_bit s (ks ! j) < int i"
proof -
  assume j: "j < cnt s ks i"
  let ?P = "\<lambda>k. drop_bit s k < int i"
  from j have "takeWhile ?P ks ! j \<in> set (takeWhile ?P ks)"
    by (simp add: cnt_def)
  then have "?P (takeWhile ?P ks ! j)"
    by (rule set_takeWhileD [THEN conjunct2])
  moreover have "takeWhile ?P ks ! j = ks ! j"
    using j by (simp add: cnt_def takeWhile_nth)
  ultimately show ?thesis by simp
qed

lemma cnt_at: "cnt s ks i < length ks \<Longrightarrow> int i \<le> drop_bit s (ks ! cnt s ks i)"
  using nth_length_takeWhile [of "\<lambda>k. drop_bit s k < int i" ks]
  by (simp add: cnt_def not_less)

lemma cnt_eqI:
  assumes "n \<le> length ks"
    and "\<And>j. j < n \<Longrightarrow> drop_bit s (ks ! j) < int i"
    and "n < length ks \<Longrightarrow> int i \<le> drop_bit s (ks ! n)"
  shows "cnt s ks i = n"
proof -
  have "takeWhile (\<lambda>k. drop_bit s k < int i) ks = take n ks"
  proof (rule takeWhile_eq_take_P_nth)
    fix j assume "j < n" "j < length ks"
    from \<open>j < n\<close> show "drop_bit s (ks ! j) < int i" by (rule assms(2))
  next
    assume "n < length ks"
    then show "\<not> drop_bit s (ks ! n) < int i"
      using assms(3) by (simp add: not_less)
  qed
  then have "cnt s ks i = min (length ks) n"
    by (simp add: cnt_def)
  with assms(1) show ?thesis by simp
qed

lemma sorted_prefix_mono:
  "sorted (ks :: int list) \<Longrightarrow> a \<le> b \<Longrightarrow> b < length ks \<Longrightarrow>
   drop_bit s (ks ! a) \<le> drop_bit s (ks ! b)"
  by (intro drop_bit_int_mono sorted_nth_mono)

lemma cnt_Suc_skip:
  assumes "int i < curAt s N ks i"
  shows "cnt s ks (Suc i) = cnt s ks i"
proof (rule cnt_eqI)
  show "cnt s ks i \<le> length ks" by (rule cnt_le)
next
  fix j assume "j < cnt s ks i"
  then have "drop_bit s (ks ! j) < int i" by (rule cnt_below)
  then show "drop_bit s (ks ! j) < int (Suc i)" by simp
next
  assume "cnt s ks i < length ks"
  with assms show "int (Suc i) \<le> drop_bit s (ks ! cnt s ks i)"
    by (simp add: curAt_def)
qed

lemma walk_finish:
  assumes srt: "sorted ks" and iN: "int i < N"
  shows "j < length ks \<Longrightarrow> drop_bit s (ks ! j) = int i \<Longrightarrow>
         walk ks s N (int i) j (int i) = Some (idxAt s ks (Suc i), curAt s N ks (Suc i))"
proof (induction "length ks - j" arbitrary: j)
  case 0
  then show ?case by simp
next
  case (Suc d)
  have upto: "\<And>a. a \<le> j \<Longrightarrow> drop_bit s (ks ! a) < int (Suc i)"
  proof -
    fix a assume "a \<le> j"
    then have "drop_bit s (ks ! a) \<le> drop_bit s (ks ! j)"
      using srt Suc.prems(1) by (intro sorted_prefix_mono)
    with Suc.prems(2) show "drop_bit s (ks ! a) < int (Suc i)" by simp
  qed
  show ?case
  proof (cases "j + 1 < length ks")
    case True
    let ?c = "drop_bit s (ks ! (j + 1))"
    have step: "walk ks s N (int i) j (int i) = walk ks s N (int i) (j + 1) ?c"
      using True by (subst walk.simps) simp
    have ge: "int i \<le> ?c"
      using sorted_prefix_mono [OF srt, of j "j + 1" s] True Suc.prems(2) by simp
    show ?thesis
    proof (cases "?c = int i")
      case eq: True
      have "walk ks s N (int i) (j + 1) (int i) = Some (idxAt s ks (Suc i), curAt s N ks (Suc i))"
        using Suc.hyps(1) [of "j + 1"] Suc.hyps(2) True eq by simp
      with step eq show ?thesis by simp
    next
      case neq: False
      have c: "cnt s ks (Suc i) = j + 1"
      proof (rule cnt_eqI)
        show "j + 1 \<le> length ks" using True by simp
      next
        fix a assume "a < j + 1"
        then show "drop_bit s (ks ! a) < int (Suc i)" using upto [of a] by simp
      next
        show "int (Suc i) \<le> ?c" using ge neq by simp
      qed
      have "walk ks s N (int i) (j + 1) ?c = Some (j + 1, ?c)"
        using neq by (subst walk.simps) simp
      with step c True show ?thesis
        by (simp add: idxAt_def curAt_def)
    qed
  next
    case False
    with Suc.prems(1) have last: "j + 1 = length ks" by simp
    have step: "walk ks s N (int i) j (int i) = walk ks s N (int i) 0 (N + 1)"
      using False by (subst walk.simps) simp
    have c: "cnt s ks (Suc i) = length ks"
    proof (rule cnt_eqI)
      fix a assume "a < length ks"
      with last show "drop_bit s (ks ! a) < int (Suc i)" using upto [of a] by simp
    qed simp_all
    have "walk ks s N (int i) 0 (N + 1) = Some (0, N + 1)"
      using iN by (subst walk.simps) simp
    with step c show ?thesis
      by (simp add: idxAt_def curAt_def)
  qed
qed

subsection \<open>The loop over the table\<close>

lemma curAt_ge: "int i < N \<Longrightarrow> int i \<le> curAt s N ks i"
  using cnt_at [of s ks i] by (simp add: curAt_def)

lemma idxAt_less: "ks \<noteq> [] \<Longrightarrow> idxAt s ks i < length ks"
  by (simp add: idxAt_def)

lemma tableStep_inv:
  assumes ne: "keys m \<noteq> []" and srt: "sorted (keys m)" and iN: "i < nat N"
    and inv: "buildInv m N i st"
  shows "\<exists>st'. tableStep m N i st = Some (Inr st') \<and> buildInv m N (Suc i) st'"
proof -
  let ?s = "unat (prefixShift m)" and ?ks = "keys m"
  obtain prev idx cur tbl where st: "st = (prev, idx, cur, tbl)"
    by (cases st) auto
  from inv st have prev: "prev < int i" and idx: "idx = idxAt ?s ?ks i"
    and cur: "cur = curAt ?s N ?ks i" and len: "length tbl = nat N"
    and tbl: "\<And>j. j < nat N \<Longrightarrow> tbl ! j = (if j < i then slotVal m N j else [])"
    by (simp_all add: buildInv_def)
  from iN have iN': "int i < N" by simp
  show ?thesis
  proof (cases "int i < cur")
    case True
    let ?v = "hashMap_get (hashMap m) (?ks ! idx)"
    have step: "tableStep m N i st = Some (Inr (prev, idx, cur, tbl[i := ?v]))"
      using True prev st idx idxAt_less [OF ne, of ?s i] by (simp add: tableStep_def)
    have same: "cnt ?s ?ks (Suc i) = cnt ?s ?ks i"
      using True cur by (intro cnt_Suc_skip [of i ?s N ?ks]) simp
    have v: "?v = slotVal m N i"
      using True cur idx by (simp add: slotVal_def)
    have "buildInv m N (Suc i) (prev, idx, cur, tbl[i := ?v])"
      unfolding buildInv_def prod.case
    proof (intro conjI allI impI)
      show "prev < int (Suc i)" using prev by simp
      show "idx = idxAt ?s ?ks (Suc i)" using idx same by (simp add: idxAt_def)
      show "cur = curAt ?s N ?ks (Suc i)" using cur same by (simp add: curAt_def)
      show "length (tbl[i := ?v]) = nat N" using len by simp
    next
      fix j assume j: "j < nat N"
      show "tbl[i := ?v] ! j = (if j < Suc i then slotVal m N j else [])"
      proof (cases "j = i")
        case True
        with j len v show ?thesis by simp
      next
        case False
        then have "tbl[i := ?v] ! j = tbl ! j" by simp
        with tbl [OF j] False show ?thesis by (simp add: less_Suc_eq)
      qed
    qed
    with step show ?thesis by blast
  next
    case False
    with curAt_ge [OF iN', of ?s ?ks] cur have cur_i: "cur = int i" by simp
    have inlen: "cnt ?s ?ks i < length ?ks"
    proof (rule ccontr)
      assume "\<not> cnt ?s ?ks i < length ?ks"
      then have "curAt ?s N ?ks i = N + 1" by (simp add: curAt_def)
      with cur cur_i iN' show False by simp
    qed
    then have idx_c: "idx = cnt ?s ?ks i" and pfx: "drop_bit ?s (?ks ! cnt ?s ?ks i) = int i"
      using idx cur cur_i by (simp_all add: idxAt_def curAt_def)
    have w: "walk ?ks ?s N (int i) (cnt ?s ?ks i) (int i)
               = Some (idxAt ?s ?ks (Suc i), curAt ?s N ?ks (Suc i))"
      using srt iN' inlen pfx by (rule walk_finish)
    have step: "tableStep m N i st
                  = Some (Inr (int i, idxAt ?s ?ks (Suc i), curAt ?s N ?ks (Suc i), tbl))"
      using st cur_i idx_c w by (simp add: tableStep_def)
    have empty: "slotVal m N i = []"
      using cur cur_i by (simp add: slotVal_def)
    have "buildInv m N (Suc i) (int i, idxAt ?s ?ks (Suc i), curAt ?s N ?ks (Suc i), tbl)"
      unfolding buildInv_def prod.case
    proof (intro conjI allI impI)
      fix j assume j: "j < nat N"
      show "tbl ! j = (if j < Suc i then slotVal m N j else [])"
        using tbl [OF j] empty by (cases "j = i") (auto simp: less_Suc_eq)
    qed (use len in simp_all)
    with step show ?thesis by blast
  qed
qed

lemma tableLoop_inv:
  assumes ne: "keys m \<noteq> []" and srt: "sorted (keys m)"
  shows "a \<le> b \<Longrightarrow> b \<le> nat N \<Longrightarrow> buildInv m N a st \<Longrightarrow>
         \<exists>st'. tableLoop m N [a..<b] st = Some (Inr st') \<and> buildInv m N b st'"
proof (induction "b - a" arbitrary: a st)
  case 0
  then show ?case by simp
next
  case (Suc d)
  then have ab: "a < b" by simp
  then have aN: "a < nat N" using Suc.prems(2) by simp
  obtain st1 where s1: "tableStep m N a st = Some (Inr st1)" and i1: "buildInv m N (Suc a) st1"
    using tableStep_inv [OF ne srt aN Suc.prems(3)] by blast
  have "\<exists>st'. tableLoop m N [Suc a..<b] st1 = Some (Inr st') \<and> buildInv m N b st'"
    using Suc.hyps(1) [of "Suc a" st1] Suc.hyps(2) ab Suc.prems(2) i1 by simp
  then obtain st' where "tableLoop m N [Suc a..<b] st1 = Some (Inr st')" "buildInv m N b st'"
    by blast
  moreover have "[a..<b] = a # [Suc a..<b]"
    using ab by (simp add: upt_rec)
  ultimately show ?case
    using s1 by auto
qed

subsection \<open>Inserting the virtual nodes\<close>

lemma addReplica_fields [simp]:
  "hash (addReplica key i m) = hash m"
  "replicas (addReplica key i m) = replicas m"
  "PlainMap.more (addReplica key i m) = PlainMap.more m"
  "keys (addReplica key i m) = keys m @ [uint (hash m (Itoa i @ key))]"
  "hashMap (addReplica key i m) = AList.update (uint (hash m (Itoa i @ key))) key (hashMap m)"
  by (simp_all add: addReplica_def Let_def)

lemma fold_addReplica_fields:
  "hash (fold (\<lambda>i. addReplica key (int i)) is m) = hash m \<and>
   replicas (fold (\<lambda>i. addReplica key (int i)) is m) = replicas m \<and>
   PlainMap.more (fold (\<lambda>i. addReplica key (int i)) is m) = PlainMap.more m \<and>
   keys (fold (\<lambda>i. addReplica key (int i)) is m)
     = keys m @ map (\<lambda>i. uint (hash m (Itoa (int i) @ key))) is"
  by (induction "is" arbitrary: m) simp_all

lemma addKey_fields [simp]:
  "hash (addKey key m) = hash m"
  "replicas (addKey key m) = replicas m"
  "PlainMap.more (addKey key m) = PlainMap.more m"
  "keys (addKey key m) = keys m @ virtualNodes (hash m) (replicas m) key"
  using fold_addReplica_fields [of key "[0..<nat (replicas m)]" m]
  by (simp_all add: addKey_def virtualNodes_def)

lemma fold_addKey_fields:
  "hash (fold addKey ks m) = hash m \<and>
   replicas (fold addKey ks m) = replicas m \<and>
   PlainMap.more (fold addKey ks m) = PlainMap.more m \<and>
   keys (fold addKey ks m) = keys m @ concat (map (virtualNodes (hash m) (replicas m)) ks)"
  by (induction ks arbitrary: m) simp_all

lemma Add_plain_fields [simp]:
  "hash (Add_plain m ks) = hash m"
  "replicas (Add_plain m ks) = replicas m"
  "PlainMap.more (Add_plain m ks) = PlainMap.more m"
  "keys (Add_plain m ks) = sort (keys m @ concat (map (virtualNodes (hash m) (replicas m)) ks))"
  "hashMap (Add_plain m ks) = hashMap (fold addKey ks m)"
  using fold_addKey_fields [of ks m]
  by (simp_all add: Add_plain_def Let_def)

lemma virtualNodes_range: "k \<in> set (virtualNodes h r key) \<Longrightarrow> 0 \<le> k \<and> k < 2 ^ 32"
proof -
  assume "k \<in> set (virtualNodes h r key)"
  then obtain w :: "32 word" where "k = uint w"
    by (auto simp: virtualNodes_def)
  then show ?thesis
    using uint_lt2p [of w] by simp
qed

lemma Add_plain_ring_ok: "ring_ok m \<Longrightarrow> ring_ok (Add_plain m ks)"
  by (auto simp: ring_ok_def dest: virtualNodes_range)

lemma Add_plain_sorted: "sorted (keys (Add_plain m ks))"
  by simp

lemma bitlen_le: "n < 2 ^ k \<Longrightarrow> bitlen n \<le> k"
proof (induction k arbitrary: n)
  case 0
  then show ?case by simp
next
  case (Suc k)
  then have "n div 2 < 2 ^ k" by simp
  then have "bitlen (n div 2) \<le> k" by (rule Suc.IH)
  then show ?case by (subst bitlen.simps) simp
qed

lemma Len32_le: "Len32 x \<le> 32"
  unfolding Len32_def
  by (rule bitlen_le) (use unsigned_less [of x, where 'a = nat] in simp)

subsection \<open>What Add returns\<close>

lemma slotVal_cong:
  "keys m = keys m' \<Longrightarrow> hashMap m = hashMap m' \<Longrightarrow> prefixShift m = prefixShift m' \<Longrightarrow>
   slotVal m N i = slotVal m' N i"
  by (simp add: slotVal_def)

lemma fold_addReplica_expansion:
  "prefixTableExpansion (fold (\<lambda>i. addReplica key (int i)) is (m :: Map)) = prefixTableExpansion m"
  by (induction "is" arbitrary: m) (simp_all add: addReplica_def Let_def)

lemma fold_addKey_expansion:
  "prefixTableExpansion (fold addKey ks (m :: Map)) = prefixTableExpansion m"
  by (induction ks arbitrary: m) (simp_all add: addKey_def fold_addReplica_expansion)

lemma Add_plain_expansion [simp]:
  "prefixTableExpansion (Add_plain (m :: Map) ks) = prefixTableExpansion m"
  by (simp add: Add_plain_def Let_def fold_addKey_expansion)

lemma cnt_0: "ks \<noteq> [] \<Longrightarrow> 0 \<le> hd ks \<Longrightarrow> cnt s ks 0 = 0"
proof (rule cnt_eqI)
  assume "ks \<noteq> []" "0 \<le> hd ks"
  then have "0 \<le> ks ! 0" by (simp add: hd_conv_nth)
  then show "int 0 \<le> drop_bit s (ks ! 0)" by simp
qed simp_all

lemma Add_result:
  assumes ok: "ring_ok m" and ne: "keys (Add_plain m ks) \<noteq> []"
  shows "\<exists>m'. Add m ks = Some (Inr m') \<and> table_ok m' \<and>
           keys m' = keys (Add_plain m ks) \<and> hashMap m' = hashMap (Add_plain m ks) \<and>
           hash m' = hash m \<and> replicas m' = replicas m \<and>
           prefixTableExpansion m' = prefixTableExpansion m"
proof -
  define m3 where "m3 = sizeTable (Add_plain m ks)"
  define pb where "pb = prefixBits m3"
  define N :: int where "N = push_bit (unat (prefixBits m3)) 1"
  let ?s = "unat (prefixShift m3)"
  let ?m1 = "Add_plain m ks"
  have pb_le: "unat pb \<le> 32"
  proof -
    let ?n = "Len32 (word_of_int (int (length (keys ?m1)) * prefixTableExpansion ?m1))"
    have "?n \<le> 32" by (rule Len32_le)
    then have "?n mod 2 ^ 32 = ?n" by simp
    then show ?thesis
      using \<open>?n \<le> 32\<close> by (simp add: pb_def m3_def sizeTable_def Let_def unat_of_nat)
  qed
  then have "pb \<le> 32" by (simp add: word_le_nat_alt)
  moreover have "prefixShift m3 = 32 - pb"
    by (simp add: pb_def m3_def sizeTable_def Let_def)
  ultimately have s: "?s = 32 - unat pb"
    by (simp add: unat_sub)
  have N: "N = 2 ^ unat pb" by (simp add: N_def pb_def)
  then have natN: "nat N = 2 ^ unat pb" by simp
  have k3: "keys m3 = keys ?m1" and h3: "hashMap m3 = hashMap ?m1"
    and t3: "prefixTable m3 = replicate (nat N) []"
    by (simp_all add: m3_def N_def sizeTable_def Let_def)
  have ne3: "keys m3 \<noteq> []" using ne k3 by simp
  have srt3: "sorted (keys m3)" using k3 by simp
  have ok3: "ring_ok m3"
    using Add_plain_ring_ok [OF ok, of ks] k3 by (simp add: ring_ok_def)
  obtain k0 rest where kc: "keys m3 = k0 # rest"
    using ne3 by (cases "keys m3") auto
  have k0: "0 \<le> k0" using ok3 kc by (simp add: ring_ok_def)
  have c0: "cnt ?s (keys m3) 0 = 0"
    using cnt_0 [of "keys m3" ?s] kc k0 by simp
  let ?init = "(- 1 :: int, 0 :: nat, drop_bit ?s k0, prefixTable m3)"
  have init: "buildInv m3 N 0 ?init"
    using c0 kc t3 by (simp add: buildInv_def idxAt_def curAt_def)
  obtain st' where loop: "tableLoop m3 N [0..<nat N] ?init = Some (Inr st')"
    and fin: "buildInv m3 N (nat N) st'"
    using tableLoop_inv [OF ne3 srt3 _ _ init, of "nat N"] by auto
  obtain prev idx cur tbl where st': "st' = (prev, idx, cur, tbl)"
    by (cases st') auto
  define m' where "m' = m3\<lparr>prefixTable := tbl\<rparr>"
  have len: "length tbl = nat N"
    and tbl: "\<And>j. j < nat N \<Longrightarrow> tbl ! j = slotVal m3 N j"
    using fin st' by (simp_all add: buildInv_def)
  have lenT: "length (prefixTable m3) = nat N"
    by (simp add: t3)
  have Npow: "(2 :: int) ^ unat (prefixBits m3) = N"
    by (simp add: N_def)
  have "fillTable m3 = Some (Inr m')"
    using loop by (simp add: fillTable_def Let_def kc lenT st' m'_def Npow)
  then have "Add m ks = Some (Inr m')"
    by (simp add: Add_def m3_def)
  moreover have "table_ok m'"
    unfolding table_ok_def
  proof (intro conjI allI impI)
    show "sorted (keys m')" using srt3 by (simp add: m'_def)
    show "ring_ok m'" using ok3 by (simp add: m'_def ring_ok_def)
    show "keys m' \<noteq> []" using ne3 by (simp add: m'_def)
    show "unat (prefixShift m') \<le> 32" using s by (simp add: m'_def)
    show "unat (prefixShift m') = 32 - unat (prefixBits m')"
      using s by (simp add: m'_def pb_def)
    show "length (prefixTable m') = 2 ^ (32 - unat (prefixShift m'))"
      using s len natN pb_le by (simp add: m'_def)
  next
    fix j assume "j < length (prefixTable m')"
    then have j: "j < nat N" using len by (simp add: m'_def)
    have "int (length (prefixTable m')) = N"
      using len N by (simp add: m'_def)
    moreover have "slotVal m' N j = slotVal m3 N j"
      by (rule slotVal_cong) (simp_all add: m'_def)
    ultimately show "prefixTable m' ! j = slotVal m' (int (length (prefixTable m'))) j"
      using tbl [OF j] by (simp add: m'_def)
  qed
  moreover have "keys m' = keys (Add_plain m ks)" "hashMap m' = hashMap (Add_plain m ks)"
    "hash m' = hash m" "replicas m' = replicas m"
    "prefixTableExpansion m' = prefixTableExpansion m"
    by (simp_all add: m'_def m3_def sizeTable_def Let_def)
  ultimately show ?thesis by blast
qed

lemma Add_empty:
  "keys (Add_plain m ks) = [] \<Longrightarrow> Add m ks = Some (Inl IndexOutOfRange)"
  by (simp add: Add_def fillTable_def sizeTable_def Let_def)

section \<open>Lookup\<close>

lemma built_inv: "built m \<Longrightarrow> ring_ok m \<and> (keys m \<noteq> [] \<longrightarrow> table_ok m)"
proof (induction rule: built.induct)
  case (built_New r e fn)
  show ?case by (simp add: NewConsistentHash_def ring_ok_def)
next
  case (built_Add m ks m')
  then have ok: "ring_ok m" by simp
  have ne: "keys (Add_plain m ks) \<noteq> []"
  proof
    assume "keys (Add_plain m ks) = []"
    then have "Add m ks = Some (Inl IndexOutOfRange)" by (rule Add_empty)
    with built_Add.hyps(2) show False by simp
  qed
  from Add_result [OF ok ne] built_Add.hyps(2) have "table_ok m'" by auto
  then show ?case by (simp add: table_ok_def)
qed

lemma takeWhile_below: "j < length (takeWhile P xs) \<Longrightarrow> P (xs ! j)"
proof -
  assume j: "j < length (takeWhile P xs)"
  then have "takeWhile P xs ! j \<in> set (takeWhile P xs)" by simp
  then have "P (takeWhile P xs ! j)" by (rule set_takeWhileD [THEN conjunct2])
  moreover have "takeWhile P xs ! j = xs ! j" using j by (rule takeWhile_nth)
  ultimately show ?thesis by simp
qed

lemma no_key_in_slot:
  assumes srt: "sorted ks" and free: "int i < curAt s N ks i" and j: "j < length ks"
  shows "drop_bit s (ks ! j) \<noteq> int i"
proof (cases "j < cnt s ks i")
  case True
  then have "drop_bit s (ks ! j) < int i" by (rule cnt_below)
  then show ?thesis by simp
next
  case False
  have same: "cnt s ks (Suc i) = cnt s ks i" using free by (rule cnt_Suc_skip)
  from False j have c: "cnt s ks (Suc i) < length ks" "cnt s ks (Suc i) \<le> j"
    using same by simp_all
  have "int (Suc i) \<le> drop_bit s (ks ! cnt s ks (Suc i))" using c(1) by (rule cnt_at)
  also have "\<dots> \<le> drop_bit s (ks ! j)" using srt c(2) j by (rule sorted_prefix_mono)
  finally show ?thesis by simp
qed

lemma slot_hit:
  assumes srt: "sorted ks" and slot: "int i = drop_bit s h"
    and free: "int i < curAt s N ks i"
  shows "idxAt s ks i = ringIndex ks h"
proof -
  let ?r = "length (takeWhile (\<lambda>k. k < h) ks)"
  have r_le: "?r \<le> length ks" by (rule length_takeWhile_le)
  have "cnt s ks i = ?r"
  proof (rule cnt_eqI [OF r_le])
    fix j assume j: "j < ?r"
    then have "ks ! j < h" by (rule takeWhile_below)
    then have "drop_bit s (ks ! j) \<le> drop_bit s h" by (intro drop_bit_int_mono) simp
    moreover have "drop_bit s (ks ! j) \<noteq> int i"
      using srt free by (rule no_key_in_slot) (use j r_le in simp)
    ultimately show "drop_bit s (ks ! j) < int i" using slot by simp
  next
    assume "?r < length ks"
    then have "\<not> ks ! ?r < h" by (rule nth_length_takeWhile)
    then have "drop_bit s h \<le> drop_bit s (ks ! ?r)" by (intro drop_bit_int_mono) simp
    then show "int i \<le> drop_bit s (ks ! ?r)" using slot by simp
  qed
  then show ?thesis
    using r_le by (simp add: idxAt_def ringIndex_def Let_def)
qed

lemma slot_range:
  assumes "s \<le> 32"
  shows "0 \<le> drop_bit s (uint (w :: 32 word)) \<and> drop_bit s (uint w) < 2 ^ (32 - s)"
proof -
  have "unat w < 2 ^ 32" using unsigned_less [of w, where 'a = nat] by simp
  also have "(2 :: nat) ^ 32 = 2 ^ (32 - s) * 2 ^ s"
    using assms by (simp flip: power_add)
  finally have "unat w div 2 ^ s < 2 ^ (32 - s)" by (rule less_mult_imp_div_less)
  then have "int (unat w div 2 ^ s) < int (2 ^ (32 - s))" by (simp only: of_nat_less_iff)
  then have "uint w div 2 ^ s < 2 ^ (32 - s)" by (simp add: zdiv_int)
  moreover have "0 \<le> uint w div 2 ^ s"
    by (rule pos_imp_zdiv_nonneg_iff [THEN iffD2]) simp_all
  ultimately show ?thesis by (simp add: drop_bit_eq_div)
qed

lemma Get_table_ok:
  assumes ok: "table_ok m"
  shows "Get m key
           = Inr (hashMap_get (hashMap m) (keys m ! ringIndex (keys m) (uint (hash m key))))"
proof -
  let ?h = "uint (hash m key)" and ?s = "unat (prefixShift m)" and ?ks = "keys m"
  let ?N = "int (length (prefixTable m))"
  let ?slot = "drop_bit ?s ?h"
  from ok have srt: "sorted ?ks" and ne: "?ks \<noteq> []" and s32: "?s \<le> 32"
    and len: "length (prefixTable m) = 2 ^ (32 - ?s)"
    and tbl: "\<And>j. j < length (prefixTable m) \<Longrightarrow> prefixTable m ! j = slotVal m ?N j"
    by (simp_all add: table_ok_def)
  have range: "0 \<le> ?slot" "?slot < ?N"
    using slot_range [OF s32, of "hash m key"] len by simp_all
  then have inb: "nat ?slot < length (prefixTable m)" by linarith
  have search: "Search (length ?ks) (\<lambda>i. ?h \<le> ?ks ! i) = length (takeWhile (\<lambda>k. k < ?h) ?ks)"
    using srt by (rule Search_sorted)
  have plain: "?ks ! (if Search (length ?ks) (\<lambda>i. ?h \<le> ?ks ! i) = length ?ks then 0
                      else Search (length ?ks) (\<lambda>i. ?h \<le> ?ks ! i))
               = ?ks ! ringIndex ?ks ?h"
    by (simp only: search ringIndex_def Let_def)
  show ?thesis
  proof (cases "0 < length (prefixTable m ! nat ?slot)")
    case True
    then have "slotVal m ?N (nat ?slot) \<noteq> []" using tbl [OF inb] by simp
    then have free: "int (nat ?slot) < curAt ?s ?N ?ks (nat ?slot)"
      and val: "slotVal m ?N (nat ?slot)
                  = hashMap_get (hashMap m) (?ks ! idxAt ?s ?ks (nat ?slot))"
      by (simp_all add: slotVal_def split: if_splits)
    have "idxAt ?s ?ks (nat ?slot) = ringIndex ?ks ?h"
      using srt _ free by (rule slot_hit) (use range in simp)
    with val tbl [OF inb] have "prefixTable m ! nat ?slot
        = hashMap_get (hashMap m) (?ks ! ringIndex ?ks ?h)" by simp
    with True ne range show ?thesis
      by (simp add: Get_def IsEmpty_def Let_def)
  next
    case False
    with ne range plain show ?thesis
      by (simp add: Get_def IsEmpty_def Let_def)
  qed
qed

lemma Get_plain_sorted:
  assumes srt: "sorted (keys m)" and ne: "keys m \<noteq> []"
  shows "Get_plain m key
           = Inr (hashMap_get (hashMap m) (keys m ! ringIndex (keys m) (uint (hash m key))))"
proof -
  let ?h = "uint (hash m key)" and ?ks = "keys m"
  have search: "Search (length ?ks) (\<lambda>i. ?h \<le> ?ks ! i) = length (takeWhile (\<lambda>k. k < ?h) ?ks)"
    using srt by (rule Search_sorted)
  have r_le: "length (takeWhile (\<lambda>k. k < ?h) ?ks) \<le> length ?ks" by (rule length_takeWhile_le)
  have "getKeyFromHash m ?h = Inr (?ks ! ringIndex ?ks ?h)"
    using ne r_le by (simp add: getKeyFromHash_def search ringIndex_def Let_def)
  then show ?thesis
    using ne by (simp add: Get_plain_def IsEmpty_def)
qed

subsection \<open>The ring successor\<close>

lemma sorted_first_Min:
  assumes srt: "sorted (ks :: int list)" and n: "n < length ks" and Qn: "Q (ks ! n)"
    and below: "\<And>j. j < n \<Longrightarrow> \<not> Q (ks ! j)"
  shows "Min {k \<in> set ks. Q k} = ks ! n"
proof (rule Min_eqI)
  show "finite {k \<in> set ks. Q k}" by simp
  show "ks ! n \<in> {k \<in> set ks. Q k}" using n Qn by simp
next
  fix y assume "y \<in> {k \<in> set ks. Q k}"
  then obtain j where j: "j < length ks" "y = ks ! j" and Qy: "Q y"
    by (auto simp: in_set_conv_nth)
  have "n \<le> j"
  proof (rule ccontr)
    assume "\<not> n \<le> j"
    then have "\<not> Q (ks ! j)" using below [of j] by simp
    with Qy j show False by simp
  qed
  then show "ks ! n \<le> y" using srt j by (simp add: sorted_nth_mono)
qed

lemma sorted_hd_Min:
  assumes srt: "sorted (ks :: int list)" and ne: "ks \<noteq> []"
  shows "Min (set ks) = ks ! 0"
proof (rule Min_eqI)
  show "finite (set ks)" by simp
  show "ks ! 0 \<in> set ks" using ne by simp
next
  fix y assume "y \<in> set ks"
  then obtain j where "j < length ks" "y = ks ! j" by (auto simp: in_set_conv_nth)
  then show "ks ! 0 \<le> y" using srt by (simp add: sorted_nth_mono)
qed

lemma ringIndex_Min:
  assumes srt: "sorted ks" and ne: "ks \<noteq> []"
  shows "ks ! ringIndex ks h
           = (if \<exists>k\<in>set ks. h \<le> k then Min {k \<in> set ks. h \<le> k} else Min (set ks))"
proof -
  let ?r = "length (takeWhile (\<lambda>k. k < h) ks)"
  have below: "\<And>j. j < ?r \<Longrightarrow> \<not> h \<le> ks ! j"
    using takeWhile_below [of _ "\<lambda>k. k < h" ks] by (simp add: not_le)
  have r_le: "?r \<le> length ks" by (rule length_takeWhile_le)
  show ?thesis
  proof (cases "?r < length ks")
    case True
    then have at: "h \<le> ks ! ?r"
      using nth_length_takeWhile [of "\<lambda>k. k < h" ks] by (simp add: not_less)
    then have ex: "\<exists>k\<in>set ks. h \<le> k" using True nth_mem by blast
    have "Min {k \<in> set ks. h \<le> k} = ks ! ?r"
      using srt True at below by (rule sorted_first_Min)
    with ex True show ?thesis by (simp add: ringIndex_def Let_def)
  next
    case False
    with r_le have all: "?r = length ks" by simp
    have none: "\<not> (\<exists>k\<in>set ks. h \<le> k)"
    proof
      assume "\<exists>k\<in>set ks. h \<le> k"
      then obtain j where "j < length ks" "h \<le> ks ! j" by (auto simp: in_set_conv_nth)
      with below [of j] all show False by simp
    qed
    with all sorted_hd_Min [OF srt ne] show ?thesis by (simp add: ringIndex_def Let_def)
  qed
qed

text \<open>
  Claim C1. On every non-empty ring the keys are sorted, and \<open>Get\<close> returns the member that
  \<open>hashMap\<close> holds for the smallest key that is at least the hash of the looked-up key; when
  no key is that large, it returns the member of the smallest key of the ring.
\<close>

theorem Get_ring_successor:
  assumes "built m" and "keys m \<noteq> []"
  shows "sorted (keys m) \<and>
         ((\<exists>k\<in>set (keys m). uint (hash m key) \<le> k) \<longrightarrow>
            Get m key = Inr (hashMap_get (hashMap m)
                               (Min {k \<in> set (keys m). uint (hash m key) \<le> k}))) \<and>
         (\<not> (\<exists>k\<in>set (keys m). uint (hash m key) \<le> k) \<longrightarrow>
            Get m key = Inr (hashMap_get (hashMap m) (Min (set (keys m)))))"
proof -
  from assms built_inv have ok: "table_ok m" by blast
  then have srt: "sorted (keys m)" by (simp add: table_ok_def)
  show ?thesis
    using srt Get_table_ok [OF ok, of key] ringIndex_Min [OF srt assms(2), of "uint (hash m key)"]
    by simp
qed

lemma slot_free_iff:
  assumes srt: "sorted ks" and iN: "int i < N"
  shows "int i < curAt s N ks i \<longleftrightarrow> \<not> (\<exists>k\<in>set ks. drop_bit s k = int i)"
proof
  assume free: "int i < curAt s N ks i"
  show "\<not> (\<exists>k\<in>set ks. drop_bit s k = int i)"
  proof
    assume "\<exists>k\<in>set ks. drop_bit s k = int i"
    then obtain j where "j < length ks" "drop_bit s (ks ! j) = int i"
      by (auto simp: in_set_conv_nth)
    with no_key_in_slot [OF srt free] show False by blast
  qed
next
  assume none: "\<not> (\<exists>k\<in>set ks. drop_bit s k = int i)"
  show "int i < curAt s N ks i"
  proof (rule ccontr)
    assume "\<not> int i < curAt s N ks i"
    with curAt_ge [OF iN, of s ks] have eq: "curAt s N ks i = int i" by simp
    then have "cnt s ks i < length ks" using iN by (auto simp: curAt_def split: if_splits)
    with eq have "ks ! cnt s ks i \<in> set ks" "drop_bit s (ks ! cnt s ks i) = int i"
      by (simp_all add: curAt_def)
    with none show False by blast
  qed
qed

lemma slot_successor_Min:
  assumes srt: "sorted ks" and ne: "ks \<noteq> []" and free: "int i < curAt s N ks i"
  shows "ks ! idxAt s ks i
           = (if \<exists>k\<in>set ks. int i < drop_bit s k then Min {k \<in> set ks. int i < drop_bit s k}
              else Min (set ks))"
proof (cases "cnt s ks i < length ks")
  case True
  let ?c = "cnt s ks i"
  have at: "int i < drop_bit s (ks ! ?c)" using free True by (simp add: curAt_def)
  then have ex: "\<exists>k\<in>set ks. int i < drop_bit s k" using True nth_mem by blast
  have below: "\<And>j. j < ?c \<Longrightarrow> \<not> int i < drop_bit s (ks ! j)"
    using cnt_below [of _ s ks i] by (simp add: not_less less_imp_le)
  have "Min {k \<in> set ks. int i < drop_bit s k} = ks ! ?c"
    using srt True at below by (rule sorted_first_Min)
  with ex True show ?thesis by (simp add: idxAt_def)
next
  case False
  with cnt_le [of s ks i] have all: "cnt s ks i = length ks" by simp
  have none: "\<not> (\<exists>k\<in>set ks. int i < drop_bit s k)"
  proof
    assume "\<exists>k\<in>set ks. int i < drop_bit s k"
    then obtain j where "j < length ks" "int i < drop_bit s (ks ! j)"
      by (auto simp: in_set_conv_nth)
    with cnt_below [of j s ks i] all show False by simp
  qed
  with False sorted_hd_Min [OF srt ne] show ?thesis by (simp add: idxAt_def)
qed

text \<open>
  Claim C6, amended. The table has \<open>2 ^ prefixBits\<close> slots and \<open>prefixShift = 32 - prefixBits\<close>.
  Slot \<open>i\<close> holds the empty string when some virtual-node hash has top bits \<open>i\<close>; otherwise
  it holds the member of the first hash with larger top bits, or of the smallest hash of the
  ring when there is none.
\<close>

theorem prefixTable_slot:
  assumes "built m" and "keys m \<noteq> []" and "i < length (prefixTable m)"
  shows "length (prefixTable m) = 2 ^ (32 - unat (prefixShift m)) \<and>
         unat (prefixShift m) = 32 - unat (prefixBits m) \<and>
         prefixTable m ! i =
           (if \<exists>k\<in>set (keys m). drop_bit (unat (prefixShift m)) k = int i then []
            else hashMap_get (hashMap m)
                   (if \<exists>k\<in>set (keys m). int i < drop_bit (unat (prefixShift m)) k
                    then Min {k \<in> set (keys m). int i < drop_bit (unat (prefixShift m)) k}
                    else Min (set (keys m))))"
proof -
  let ?s = "unat (prefixShift m)" and ?ks = "keys m" and ?N = "int (length (prefixTable m))"
  from assms built_inv have ok: "table_ok m" by blast
  then have srt: "sorted ?ks" and len: "length (prefixTable m) = 2 ^ (32 - ?s)"
    and sh: "?s = 32 - unat (prefixBits m)"
    and tbl: "prefixTable m ! i = slotVal m ?N i"
    using assms(3) by (simp_all add: table_ok_def)
  have iN: "int i < ?N" using assms(3) by simp
  show ?thesis
  proof (cases "int i < curAt ?s ?N ?ks i")
    case True
    then have "\<not> (\<exists>k\<in>set ?ks. drop_bit ?s k = int i)"
      using slot_free_iff [OF srt iN, of ?s] by simp
    moreover have "prefixTable m ! i = hashMap_get (hashMap m) (?ks ! idxAt ?s ?ks i)"
      using tbl True by (simp add: slotVal_def)
    ultimately show ?thesis
      using len sh slot_successor_Min [OF srt assms(2) True] by simp
  next
    case False
    then have "\<exists>k\<in>set ?ks. drop_bit ?s k = int i"
      using slot_free_iff [OF srt iN, of ?s] by simp
    moreover have "prefixTable m ! i = []"
      using tbl False by (simp add: slotVal_def)
    ultimately show ?thesis
      using len sh by simp
  qed
qed

section \<open>Totality of Add, and the ring without a table\<close>

lemma Add_plain_keys_empty_iff:
  "keys (Add_plain m ks) = [] \<longleftrightarrow> keys m = [] \<and> (ks = [] \<or> replicas m \<le> 0)"
proof -
  have "concat (map (virtualNodes (hash m) (replicas m)) ks) = []
          \<longleftrightarrow> ks = [] \<or> replicas m \<le> 0"
    by (cases ks) (auto simp: virtualNodes_def)
  moreover have "keys (Add_plain m ks) = []
          \<longleftrightarrow> keys m @ concat (map (virtualNodes (hash m) (replicas m)) ks) = []"
  proof -
    have "length (keys (Add_plain m ks))
            = length (keys m @ concat (map (virtualNodes (hash m) (replicas m)) ks))"
      by (simp only: Add_plain_fields length_sort)
    then show ?thesis by (simp only: length_0_conv [symmetric])
  qed
  ultimately show ?thesis by simp
qed

lemma built_no_replicas: "built m \<Longrightarrow> replicas m \<le> 0 \<Longrightarrow> keys m = []"
proof (induction rule: built.induct)
  case (built_New r e fn)
  show ?case by (simp add: NewConsistentHash_def)
next
  case (built_Add m ks m')
  from built_Add.hyps(1) have ok: "ring_ok m" using built_inv by blast
  have ne: "keys (Add_plain m ks) \<noteq> []"
  proof
    assume "keys (Add_plain m ks) = []"
    then have "Add m ks = Some (Inl IndexOutOfRange)" by (rule Add_empty)
    with built_Add.hyps(2) show False by simp
  qed
  from Add_result [OF ok ne] built_Add.hyps(2)
  have r: "replicas m' = replicas m" by auto
  with built_Add.prems have "replicas m \<le> 0" by simp
  then have "keys m = []" by (rule built_Add.IH)
  with \<open>replicas m \<le> 0\<close> have "keys (Add_plain m ks) = []"
    by (simp only: Add_plain_keys_empty_iff) simp
  with ne show ?case by simp
qed

text \<open>
  Claim C9. On a ring made by \<open>New\<close> and returning \<open>Add\<close>s: when \<open>replicas\<close> is at least 1 and
  a name is given, or the ring already has keys, \<open>Add\<close> returns a ring with keys, so that the
  loop ends and no index leaves its range. When the ring has no keys and no name is given or
  \<open>replicas\<close> is not positive, \<open>Add\<close> panics at \<open>m.keys[0]\<close>; with \<open>replicas\<close> not positive
  every \<open>Add\<close> does.
\<close>

theorem Add_panics_iff_ring_stays_empty:
  assumes "built m"
  shows "((1 \<le> replicas m \<and> ks \<noteq> []) \<or> keys m \<noteq> []
            \<longrightarrow> (\<exists>m'. Add m ks = Some (Inr m') \<and> keys m' \<noteq> [])) \<and>
         (keys m = [] \<and> (ks = [] \<or> replicas m \<le> 0)
            \<longrightarrow> Add m ks = Some (Inl IndexOutOfRange)) \<and>
         (replicas m \<le> 0 \<longrightarrow> Add m ks = Some (Inl IndexOutOfRange))"
proof (intro conjI impI)
  assume a: "(1 \<le> replicas m \<and> ks \<noteq> []) \<or> keys m \<noteq> []"
  from assms have ok: "ring_ok m" using built_inv by blast
  from a have ne: "keys (Add_plain m ks) \<noteq> []"
    by (simp only: Add_plain_keys_empty_iff) auto
  from Add_result [OF ok ne] ne show "\<exists>m'. Add m ks = Some (Inr m') \<and> keys m' \<noteq> []"
    by auto
next
  assume "keys m = [] \<and> (ks = [] \<or> replicas m \<le> 0)"
  then have "keys (Add_plain m ks) = []" by (simp only: Add_plain_keys_empty_iff)
  then show "Add m ks = Some (Inl IndexOutOfRange)" by (rule Add_empty)
next
  assume r: "replicas m \<le> 0"
  with assms have "keys m = []" by (rule built_no_replicas)
  with r have "keys (Add_plain m ks) = []" by (simp only: Add_plain_keys_empty_iff) simp
  then show "Add m ks = Some (Inl IndexOutOfRange)" by (rule Add_empty)
qed

lemma updateAll_append: "updateAll (ps @ qs) al = updateAll qs (updateAll ps al)"
  by (simp add: updateAll_def)

lemma fold_addReplica_hashMap:
  "hashMap (fold (\<lambda>i. addReplica key (int i)) is m)
     = updateAll (map (\<lambda>i. (uint (hash m (Itoa (int i) @ key)), key)) is) (hashMap m)"
  by (induction "is" arbitrary: m) (simp_all add: updateAll_def)

lemma addKey_hashMap:
  "hashMap (addKey key m) = updateAll (virtualPairs (hash m) (replicas m) key) (hashMap m)"
  by (simp add: addKey_def virtualPairs_def fold_addReplica_hashMap)

lemma fold_addKey_hashMap:
  "hashMap (fold addKey ks m)
     = updateAll (concat (map (virtualPairs (hash m) (replicas m)) ks)) (hashMap m)"
  by (induction ks arbitrary: m) (simp_all add: addKey_hashMap updateAll_append updateAll_def)

lemma Add_plain_hashMap:
  "hashMap (Add_plain m ks)
     = updateAll (concat (map (virtualPairs (hash m) (replicas m)) ks)) (hashMap m)"
  by (simp add: fold_addKey_hashMap)

lemma built_both_fields:
  "built_both m p \<Longrightarrow>
   built m \<and> hash p = hash m \<and> replicas p = replicas m \<and> keys p = keys m \<and>
   hashMap p = hashMap m"
proof (induction rule: built_both.induct)
  case (both_New r e fn)
  have "built (NewConsistentHash r e fn)" by (rule built_New)
  then show ?case by (simp add: NewConsistentHash_def New_plain_def)
next
  case (both_Add m p ks m')
  then have b: "built m" and eq: "hash p = hash m" "replicas p = replicas m" "keys p = keys m"
    "hashMap p = hashMap m" by simp_all
  from b have ok: "ring_ok m" using built_inv by blast
  have ne: "keys (Add_plain m ks) \<noteq> []"
  proof
    assume "keys (Add_plain m ks) = []"
    then have "Add m ks = Some (Inl IndexOutOfRange)" by (rule Add_empty)
    with both_Add.hyps(2) show False by simp
  qed
  from Add_result [OF ok ne] both_Add.hyps(2)
  have m': "keys m' = keys (Add_plain m ks)" "hashMap m' = hashMap (Add_plain m ks)"
    "hash m' = hash m" "replicas m' = replicas m" by auto
  have "built m'" using b both_Add.hyps(2) by (rule built_Add)
  then show ?case
    using m' eq by (simp add: fold_addKey_hashMap)
qed

text \<open>
  Claim C2. For a ring with a table and a ring without, made by the same calls, \<open>Get\<close> of the
  first and \<open>Get\<close> of the second, which only searches, return the same for every key; and
  when the ring is not empty, the slot of the key is inside the table and, if it is not the
  empty string, it is what the search returns.
\<close>

theorem prefix_table_refines_binary_search:
  assumes "built_both m p"
  shows "Get m key = Get_plain p key \<and>
         (keys m \<noteq> [] \<longrightarrow>
            nat (drop_bit (unat (prefixShift m)) (uint (hash m key))) < length (prefixTable m) \<and>
            (prefixTable m ! nat (drop_bit (unat (prefixShift m)) (uint (hash m key))) \<noteq> [] \<longrightarrow>
               Get_plain p key
                 = Inr (prefixTable m ! nat (drop_bit (unat (prefixShift m)) (uint (hash m key))))))"
proof -
  from built_both_fields [OF assms]
  have b: "built m" and eq: "hash p = hash m" "keys p = keys m" "hashMap p = hashMap m"
    by simp_all
  show ?thesis
  proof (cases "keys m = []")
    case True
    with eq show ?thesis by (simp add: Get_def Get_plain_def IsEmpty_def)
  next
    case False
    with b built_inv have ok: "table_ok m" by blast
    then have srt: "sorted (keys p)" and s32: "unat (prefixShift m) \<le> 32"
      and len: "length (prefixTable m) = 2 ^ (32 - unat (prefixShift m))"
      using eq by (simp_all add: table_ok_def)
    have same: "Get m key = Get_plain p key"
      using Get_table_ok [OF ok, of key] Get_plain_sorted [OF srt, of key] False eq by simp
    let ?slot = "drop_bit (unat (prefixShift m)) (uint (hash m key))"
    have range: "0 \<le> ?slot" "?slot < int (length (prefixTable m))"
      using slot_range [OF s32, of "hash m key"] len by simp_all
    then have inb: "nat ?slot < length (prefixTable m)" by linarith
    have "prefixTable m ! nat ?slot \<noteq> [] \<Longrightarrow> Get m key = Inr (prefixTable m ! nat ?slot)"
      using False range by (simp add: Get_def IsEmpty_def Let_def)
    with same inb False show ?thesis by simp
  qed
qed

section \<open>Insertion order\<close>

lemma map_of_updateAll: "map_of (updateAll ps al) = map_of al ++ map_of (rev ps)"
proof (induction ps arbitrary: al)
  case Nil
  show ?case by (simp add: updateAll_def)
next
  case (Cons p ps)
  have e0: "updateAll (p # ps) al = updateAll ps (AList.update (fst p) (snd p) al)"
    by (simp add: updateAll_def)
  have e1: "map_of (updateAll (p # ps) al)
               = map_of (AList.update (fst p) (snd p) al) ++ map_of (rev ps)"
    by (simp only: e0 Cons.IH)
  have e2: "map_of (AList.update (fst p) (snd p) al) = (map_of al)(fst p \<mapsto> snd p)"
    by (rule update_conv')
  have e3: "map_of (rev (p # ps)) = [fst p \<mapsto> snd p] ++ map_of (rev ps)"
    by (cases p) (simp add: map_of_append)
  have e4: "(map_of al)(fst p \<mapsto> snd p) = map_of al ++ [fst p \<mapsto> snd p]"
    by simp
  show ?case
    by (simp only: e1 e2 e3 e4 map_add_assoc)
qed

lemma virtualPairs_fst: "map fst (virtualPairs h r a) = virtualNodes h r a"
  by (simp add: virtualPairs_def virtualNodes_def comp_def)

lemma virtualPairs_snd: "(k, v) \<in> set (virtualPairs h r a) \<Longrightarrow> v = a \<and> k \<in> set (virtualNodes h r a)"
  by (auto simp: virtualPairs_def virtualNodes_def)

lemma pairs_owner:
  assumes "map_of (rev (concat (map (virtualPairs h r) ks))) k = Some v"
  shows "v \<in> set ks \<and> k \<in> set (virtualNodes h r v)"
proof -
  from assms have "(k, v) \<in> set (rev (concat (map (virtualPairs h r) ks)))"
    by (rule map_of_SomeD)
  then obtain a where "a \<in> set ks" "(k, v) \<in> set (virtualPairs h r a)"
    by auto
  with virtualPairs_snd [of k v h r a] show ?thesis by simp
qed

lemma pairs_dom:
  "map_of (rev (concat (map (virtualPairs h r) ks))) k = None
     \<longleftrightarrow> k \<notin> (\<Union>a\<in>set ks. set (virtualNodes h r a))"
proof -
  have "fst ` set (rev (concat (map (virtualPairs h r) ks)))
          = (\<Union>a\<in>set ks. set (virtualNodes h r a))"
  proof -
    have "\<And>x. fst ` set (virtualPairs h r x) = set (virtualNodes h r x)"
      using virtualPairs_fst [of h r] by (metis set_map)
    then show ?thesis by (simp add: image_UN)
  qed
  then show ?thesis
    by (simp add: map_of_eq_None_iff)
qed

lemma Add_owned:
  assumes ok: "ring_ok m" and add: "Add m ks = Some (Inr m')" and own: "owned S m"
  shows "owned (S \<union> set ks) m' \<and> hash m' = hash m \<and> replicas m' = replicas m"
proof -
  let ?h = "hash m" and ?r = "replicas m"
  let ?ps = "concat (map (virtualPairs ?h ?r) ks)"
  have ne: "keys (Add_plain m ks) \<noteq> []"
  proof
    assume "keys (Add_plain m ks) = []"
    then have "Add m ks = Some (Inl IndexOutOfRange)" by (rule Add_empty)
    with add show False by simp
  qed
  from Add_result [OF ok ne] add
  have k': "keys m' = keys (Add_plain m ks)" and hm': "hashMap m' = hashMap (Add_plain m ks)"
    and h': "hash m' = ?h" and r': "replicas m' = ?r" by auto
  have keys: "set (keys m') = set (keys m) \<union> (\<Union>a\<in>set ks. set (virtualNodes ?h ?r a))"
    by (simp add: k')
  have mo: "map_of (hashMap m') = map_of (hashMap m) ++ map_of (rev ?ps)"
    by (simp only: hm' Add_plain_hashMap map_of_updateAll)
  from own have oldkeys: "set (keys m) = (\<Union>a\<in>S. set (virtualNodes ?h ?r a))"
    and oldown: "\<And>k. k \<in> set (keys m) \<Longrightarrow>
          \<exists>a\<in>S. k \<in> set (virtualNodes ?h ?r a) \<and> map_of (hashMap m) k = Some a"
    by (simp_all add: owned_def)
  have "owned (S \<union> set ks) m'"
    unfolding owned_def h' r'
  proof (intro conjI ballI)
    show "set (keys m') = (\<Union>a\<in>S \<union> set ks. set (virtualNodes ?h ?r a))"
      using keys oldkeys by auto
  next
    fix k assume k: "k \<in> set (keys m')"
    show "\<exists>a\<in>S \<union> set ks. k \<in> set (virtualNodes ?h ?r a) \<and> map_of (hashMap m') k = Some a"
    proof (cases "map_of (rev ?ps) k")
      case (Some v)
      then have "map_of (hashMap m') k = Some v" by (simp add: mo)
      with pairs_owner [OF Some] show ?thesis by blast
    next
      case None
      then have "k \<notin> (\<Union>a\<in>set ks. set (virtualNodes ?h ?r a))"
        using pairs_dom [of ?h ?r ks k] by blast
      with k keys have "k \<in> set (keys m)" by blast
      from oldown [OF this] obtain a where "a \<in> S" "k \<in> set (virtualNodes ?h ?r a)"
        "map_of (hashMap m) k = Some a" by blast
      moreover have "map_of (hashMap m') k = map_of (hashMap m) k"
        using None by (simp add: mo map_add_def)
      ultimately show ?thesis by auto
    qed
  qed
  with h' r' show ?thesis by simp
qed

lemma AddAll_owned:
  "built m \<Longrightarrow> AddAll m calls = Some (Inr m') \<Longrightarrow> owned S m \<Longrightarrow>
   built m' \<and> owned (S \<union> set (concat calls)) m' \<and> hash m' = hash m \<and> replicas m' = replicas m"
proof (induction calls arbitrary: m S)
  case Nil
  then show ?case by simp
next
  case (Cons ks calls)
  from Cons.prems(2) obtain m1 where a1: "Add m ks = Some (Inr m1)"
    and rest: "AddAll m1 calls = Some (Inr m')"
    by (auto split: option.splits sum.splits)
  from Cons.prems(1) have ok: "ring_ok m" using built_inv by blast
  have b1: "built m1" using Cons.prems(1) a1 by (rule built_Add)
  from Add_owned [OF ok a1 Cons.prems(3)]
  have o1: "owned (S \<union> set ks) m1" and f1: "hash m1 = hash m" "replicas m1 = replicas m"
    by simp_all
  from Cons.IH [OF b1 rest o1] f1 show ?case
    by (simp add: Un_assoc)
qed

lemma owned_New: "owned {} (NewConsistentHash r e fn)"
  by (simp add: owned_def NewConsistentHash_def)

lemma owned_member:
  assumes own: "owned S m" and free: "collisionFree (hash m) (replicas m) S"
    and k: "k \<in> set (keys m)" and a: "a \<in> S" "k \<in> set (virtualNodes (hash m) (replicas m) a)"
  shows "hashMap_get (hashMap m) k = a"
proof -
  from own k obtain b where b: "b \<in> S" "k \<in> set (virtualNodes (hash m) (replicas m) b)"
    "map_of (hashMap m) k = Some b" by (auto simp: owned_def)
  have "a = b"
  proof (rule ccontr)
    assume "a \<noteq> b"
    with free a(1) b(1) have "set (virtualNodes (hash m) (replicas m) a)
        \<inter> set (virtualNodes (hash m) (replicas m) b) = {}" by (simp add: collisionFree_def)
    with a(2) b(2) show False by blast
  qed
  with b(3) show ?thesis by (simp add: hashMap_get_def)
qed

text \<open>
  Claim C4, amended. Two rings made with the same replica count and hash function by any two
  sequences of returning \<open>Add\<close> calls that name the same set of members give the same \<open>Get\<close>
  for every key, provided no two different members have virtual nodes with the same hash.
\<close>

theorem Get_independent_of_insertion_order:
  assumes b1: "AddAll (NewConsistentHash r e1 fn) calls1 = Some (Inr m1)"
    and b2: "AddAll (NewConsistentHash r e2 fn) calls2 = Some (Inr m2)"
    and same: "set (concat calls1) = set (concat calls2)"
    and free: "collisionFree (hash m1) r (set (concat calls1))"
  shows "Get m1 key = Get m2 key"
proof -
  let ?S = "set (concat calls1)"
  from AddAll_owned [OF built_New b1 owned_New]
  have B1: "built m1" and O1: "owned ?S m1" and H1: "hash m1 = hash (NewConsistentHash r e1 fn)"
    and R1: "replicas m1 = r" by (simp_all add: NewConsistentHash_def)
  from AddAll_owned [OF built_New b2 owned_New] same
  have B2: "built m2" and O2: "owned ?S m2" and H2: "hash m2 = hash (NewConsistentHash r e2 fn)"
    and R2: "replicas m2 = r" by (simp_all add: NewConsistentHash_def)
  have H: "hash m2 = hash m1" using H1 H2 by (simp add: NewConsistentHash_def)
  have K: "set (keys m2) = set (keys m1)"
    using O1 O2 H R1 R2 by (simp add: owned_def)
  show ?thesis
  proof (cases "keys m1 = []")
    case True
    with K have "keys m2 = []" by simp
    with True show ?thesis by (simp add: Get_def IsEmpty_def)
  next
    case False
    with K have ne2: "keys m2 \<noteq> []" by auto
    from B1 False built_inv have ok1: "table_ok m1" by blast
    from B2 ne2 built_inv have ok2: "table_ok m2" by blast
    from ok1 ok2 have srt: "sorted (keys m1)" "sorted (keys m2)" by (simp_all add: table_ok_def)
    let ?h = "uint (hash m1 key)"
    let ?k = "if \<exists>k\<in>set (keys m1). ?h \<le> k then Min {k \<in> set (keys m1). ?h \<le> k}
              else Min (set (keys m1))"
    have i1: "keys m1 ! ringIndex (keys m1) ?h = ?k"
      using srt(1) False by (rule ringIndex_Min)
    have i2: "keys m2 ! ringIndex (keys m2) ?h = ?k"
      using ringIndex_Min [OF srt(2) ne2, of ?h] K by simp
    have kin: "?k \<in> set (keys m1)"
      using i1 [symmetric] False length_takeWhile_le [of "\<lambda>k. k < ?h" "keys m1"]
      by (auto simp: ringIndex_def Let_def simp del: length_takeWhile_le)
    then obtain a where a: "a \<in> ?S" "?k \<in> set (virtualNodes (hash m1) (replicas m1) a)"
      using O1 by (auto simp: owned_def)
    have "hashMap_get (hashMap m1) ?k = a"
      using O1 _ kin a by (rule owned_member) (use free R1 in simp)
    moreover have "hashMap_get (hashMap m2) ?k = a"
      using O2 _ _ a(1) by (rule owned_member) (use free R1 R2 H K kin a in simp_all)
    ultimately show ?thesis
      using Get_table_ok [OF ok1, of key] Get_table_ok [OF ok2, of key] i1 i2 H by simp
  qed
qed

section \<open>The peer pool\<close>

declare walk.simps [code]

lemma Add_keeps:
  assumes "Add m ks = Some (Inr m')"
  shows "keys m' = keys (Add_plain m ks)" and "hashMap m' = hashMap (Add_plain m ks)"
    and "hash m' = hash m" and "replicas m' = replicas m" and "keys m' \<noteq> []"
  using assms
  by (auto simp: Add_def fillTable_def sizeTable_def Let_def
      split: list.splits option.splits sum.splits)

lemma getters_fold_dom:
  "dom (fold (\<lambda>peer gs. gs(peer \<mapsto> \<lparr>hostAndPort = peer\<rparr>)) ps gs0) = dom gs0 \<union> set ps"
  by (induction ps arbitrary: gs0) auto

lemma Set_fields:
  assumes "Set g ps = Some (Inr g')"
  shows "\<exists>m'. Add (peers g) ps = Some (Inr m') \<and> peers g' = m' \<and> self g' = self g \<and>
           dom (getters g') = set ps"
proof -
  from assms obtain m' where a: "Add (peers g) ps = Some (Inr m')"
    and g': "g' = g\<lparr>peers := m',
        getters := fold (\<lambda>peer gs. gs(peer \<mapsto> \<lparr>hostAndPort = peer\<rparr>)) ps Map.empty\<rparr>"
    by (auto simp: Set_def split: option.splits sum.splits)
  have "dom (getters g') = set ps"
    unfolding g' using getters_fold_dom [of ps Map.empty] by simp
  with a g' show ?thesis by simp
qed

text \<open>
  Claim C10, amended. After \<open>Set(p1)\<close> and \<open>Set(p2)\<close>, both returning, the ring still holds
  every key it held after the first call, while the getters are those of \<open>p2\<close> only; so for a
  key that the ring maps to a member outside \<open>p2\<close> and other than the pool's own address,
  \<open>PickPeer\<close> returns a nil getter with the flag true.
\<close>

theorem PickPeer_removed_member:
  assumes s1: "Set g p1 = Some (Inr g1)" and s2: "Set g1 p2 = Some (Inr g2)"
    and hit: "Get (peers g2) key = Inr peer"
    and gone: "peer \<notin> set p2" and other: "peer \<noteq> self g"
  shows "PickPeer g2 key = Inr (None, True) \<and>
         set (keys (peers g1)) \<subseteq> set (keys (peers g2)) \<and>
         dom (getters g2) = set p2"
proof -
  from Set_fields [OF s1] have self1: "self g1 = self g" by auto
  from Set_fields [OF s2] obtain m2 where a2: "Add (peers g1) p2 = Some (Inr m2)"
    and p2: "peers g2 = m2" and self2: "self g2 = self g1" and d2: "dom (getters g2) = set p2"
    by auto
  have k2: "keys m2 = keys (Add_plain (peers g1) p2)" and ne: "keys m2 \<noteq> []"
    by (rule Add_keeps [OF a2])+
  have sub: "set (keys (peers g1)) \<subseteq> set (keys (peers g2))"
    by (simp add: p2 k2)
  have "getters g2 peer = None" using gone d2 by blast
  then have "PickPeer g2 key = Inr (None, True)"
    using hit ne other self1 self2 p2 by (simp add: PickPeer_def IsEmpty_def)
  with sub d2 show ?thesis by simp
qed

lemma returns_result: "returns r \<Longrightarrow> r = Some (Inr (result r))"
  by (auto simp: returns_def result_def split: option.splits sum.splits)

lemma pool1_Set: "Set (pool0 me) [''a'', ''b''] = Some (Inr (pool1 me))"
proof -
  have "returns (Set (pool0 me) [''a'', ''b''])"
    unfolding pool0_def by code_simp
  then show ?thesis unfolding pool1_def by (rule returns_result)
qed

lemma pool2_Set: "Set (pool1 me) [''b''] = Some (Inr (pool2 me))"
proof -
  have "returns (Set (pool1 me) [''b''])"
    unfolding pool1_def pool0_def result_def by code_simp
  then show ?thesis unfolding pool2_def by (rule returns_result)
qed

lemma pool2_Get: "Get (peers (pool2 me)) ''x'' = Inr ''a''"
  unfolding pool2_def pool1_def pool0_def result_def by code_simp

lemma pool0_self: "self (pool0 me) = me"
  by (simp add: pool0_def NewPoolOpts_def)

text \<open>
  A pool at address b: after \<open>Set("a", "b")\<close> and \<open>Set("b")\<close> the key x still maps to the
  member a, which has no getter.
\<close>

theorem PickPeer_removed_member_witness:
  "PickPeer (pool2 ''b'') ''x'' = Inr (None, True) \<and>
   set (keys (peers (pool1 ''b''))) \<subseteq> set (keys (peers (pool2 ''b''))) \<and>
   dom (getters (pool2 ''b'')) = set [''b'']"
  using PickPeer_removed_member [OF pool1_Set pool2_Set pool2_Get, of "''b''"]
  by (simp add: pool0_self)

text \<open>
  Claim C10 as stated fails when the removed member is the pool's own address: in a pool at
  address a, after \<open>Set("a", "b")\<close> and \<open>Set("b")\<close> the key x maps to the removed member a, and
  \<open>PickPeer\<close> returns nil with the flag false.
\<close>

theorem PickPeer_removed_self_counterexample:
  "Set (pool0 ''a'') [''a'', ''b''] = Some (Inr (pool1 ''a'')) \<and>
   Set (pool1 ''a'') [''b''] = Some (Inr (pool2 ''a'')) \<and>
   Get (peers (pool2 ''a'')) ''x'' = Inr ''a'' \<and>
   PickPeer (pool2 ''a'') ''x'' = Inr (None, False)"
proof -
  have "PickPeer (pool2 ''a'') ''x'' = Inr (None, False)"
    unfolding pool2_def pool1_def pool0_def result_def by code_simp
  then show ?thesis
    using pool1_Set [of "''a''"] pool2_Set [of "''a''"] pool2_Get [of "''a''"] by simp
qed

section \<open>The rings of the repository's tests\<close>

lemma testRing_Add:
  "Add (NewConsistentHash 3 6 (Some atoiHash)) [''6'', ''4'', ''2''] = Some (Inr testRing)"
proof -
  have "returns (Add (NewConsistentHash 3 6 (Some atoiHash)) [''6'', ''4'', ''2''])"
    by code_simp
  then show ?thesis unfolding testRing_def by (rule returns_result)
qed

lemma testRing_built: "built testRing"
  using built_New testRing_Add by (rule built_Add)

lemma testRing_eval:
  "keys testRing = [2, 4, 6, 12, 14, 16, 22, 24, 26]"
  "uint (hash testRing ''11'') = 11"
  "uint (hash testRing ''27'') = 27"
  "length (prefixTable testRing) = 64"
  "unat (prefixShift testRing) = 26"
  "Get testRing ''11'' = Inr ''2''"
  "Get testRing ''27'' = Inr ''2''"
  "Get testRing ''23'' = Inr ''4''"
  "prefixTable testRing ! 1 = ''2''"
  unfolding testRing_def result_def by code_simp+

text \<open>
  The test ring: key 11 goes to the member of hash 12, key 27 wraps around to the member of
  hash 2.
\<close>

theorem Get_ring_successor_witness:
  "sorted (keys testRing) \<and>
   Get testRing ''11''
     = Inr (hashMap_get (hashMap testRing) (Min {k \<in> set (keys testRing). 11 \<le> k})) \<and>
   Get testRing ''27'' = Inr (hashMap_get (hashMap testRing) (Min (set (keys testRing)))) \<and>
   Get testRing ''11'' = Inr ''2'' \<and> Get testRing ''27'' = Inr ''2''"
proof -
  have ne: "keys testRing \<noteq> []" by (simp add: testRing_eval)
  have ex: "\<exists>k\<in>set (keys testRing). uint (hash testRing ''11'') \<le> k"
    by (simp add: testRing_eval)
  have none: "\<not> (\<exists>k\<in>set (keys testRing). uint (hash testRing ''27'') \<le> k)"
    by (simp add: testRing_eval)
  from Get_ring_successor [OF testRing_built ne, of "''11''"] ex
    Get_ring_successor [OF testRing_built ne, of "''27''"] none
  show ?thesis
    by (simp add: testRing_eval(2,3,6,7))
qed

text \<open>
  The test ring has 64 slots; every hash has top bits 0, so slot 0 is empty and slot 1 holds
  the member of the smallest hash.
\<close>

theorem prefixTable_slot_witness:
  "length (prefixTable testRing) = 2 ^ (32 - unat (prefixShift testRing)) \<and>
   prefixTable testRing ! 0 = [] \<and>
   prefixTable testRing ! 1 = hashMap_get (hashMap testRing) (Min (set (keys testRing))) \<and>
   prefixTable testRing ! 1 = ''2''"
proof -
  have ne: "keys testRing \<noteq> []" by (simp add: testRing_eval)
  have l0: "0 < length (prefixTable testRing)" and l1: "1 < length (prefixTable testRing)"
    by (simp_all add: testRing_eval)
  have in0: "\<exists>k\<in>set (keys testRing). drop_bit (unat (prefixShift testRing)) k = int 0"
    by (simp add: testRing_eval drop_bit_eq_div)
  have out1: "\<not> (\<exists>k\<in>set (keys testRing). drop_bit (unat (prefixShift testRing)) k = int 1)"
    "\<not> (\<exists>k\<in>set (keys testRing). int 1 < drop_bit (unat (prefixShift testRing)) k)"
    by (simp_all add: testRing_eval drop_bit_eq_div)
  have t0: "prefixTable testRing ! 0 = []"
    and len: "length (prefixTable testRing) = 2 ^ (32 - unat (prefixShift testRing))"
    using prefixTable_slot [OF testRing_built ne l0] in0 by simp_all
  have t1: "prefixTable testRing ! 1
              = hashMap_get (hashMap testRing) (Min (set (keys testRing)))"
    using prefixTable_slot [OF testRing_built ne l1] out1 by simp
  show ?thesis
    using t0 t1 len testRing_eval(9) by blast
qed

text \<open>
  Claim C6 as stated fails on a ring with one member: the hashes 6, 16 and 26 with top bits 0
  and the hash that succeeds them all belong to member 6, and yet slot 0 holds the empty
  string.
\<close>

theorem prefixTable_slot_counterexample:
  "keys oneMemberRing = [6, 16, 26] \<and>
   slotMembers oneMemberRing 0 = [''6'', ''6'', ''6'', ''6''] \<and>
   slot_as_claimed oneMemberRing 0 = ''6'' \<and>
   prefixTable oneMemberRing ! 0 = []"
  unfolding oneMemberRing_def result_def by code_simp

text \<open>
  The test ring with and without a table.
\<close>

theorem prefix_table_refines_binary_search_witness:
  "Get testRing ''23'' = Get_plain testPlain ''23'' \<and>
   nat (drop_bit (unat (prefixShift testRing)) (uint (hash testRing ''23'')))
     < length (prefixTable testRing) \<and>
   Get testRing ''23'' = Inr ''4''"
proof -
  have both: "built_both testRing testPlain"
    unfolding testPlain_def using both_New testRing_Add by (rule both_Add)
  have ne: "keys testRing \<noteq> []" by (simp add: testRing_eval)
  from prefix_table_refines_binary_search [OF both, of "''23''"] ne
  show ?thesis
    by (simp add: testRing_eval(8))
qed

text \<open>
  A new ring with three replicas takes three names and panics on none; a new ring without
  replicas panics on a name.
\<close>

theorem Add_panics_iff_ring_stays_empty_witness:
  "(\<exists>m'. Add (NewConsistentHash 3 6 (Some atoiHash)) [''6'', ''4'', ''2''] = Some (Inr m') \<and>
         keys m' \<noteq> []) \<and>
   Add (NewConsistentHash 3 6 (Some atoiHash)) [] = Some (Inl IndexOutOfRange) \<and>
   Add (NewConsistentHash 0 6 (Some atoiHash)) [''6''] = Some (Inl IndexOutOfRange)"
  using Add_panics_iff_ring_stays_empty [OF built_New, of 3 6 "Some atoiHash" "[''6'', ''4'', ''2'']"]
    Add_panics_iff_ring_stays_empty [OF built_New, of 3 6 "Some atoiHash" "[]"]
    Add_panics_iff_ring_stays_empty [OF built_New, of 0 6 "Some atoiHash" "[''6'']"]
  by (simp add: NewConsistentHash_def)

lemma ringA_returned:
  "AddAll (NewConsistentHash 3 6 (Some atoiHash)) [[''6'', ''4'', ''2'']] = Some (Inr ringA)"
proof -
  have "returns (AddAll (NewConsistentHash 3 6 (Some atoiHash)) [[''6'', ''4'', ''2'']])"
    by code_simp
  then show ?thesis unfolding ringA_def by (rule returns_result)
qed

lemma ringB_returned:
  "AddAll (NewConsistentHash 3 6 (Some atoiHash)) [[''2''], [''4'', ''6'']] = Some (Inr ringB)"
proof -
  have "returns (AddAll (NewConsistentHash 3 6 (Some atoiHash)) [[''2''], [''4'', ''6'']])"
    by code_simp
  then show ?thesis unfolding ringB_def by (rule returns_result)
qed

lemma ringX_returned:
  "AddAll (NewConsistentHash 1 6 (Some atoiHash)) [[''1'', ''01'']] = Some (Inr ringX)"
proof -
  have "returns (AddAll (NewConsistentHash 1 6 (Some atoiHash)) [[''1'', ''01'']])"
    by code_simp
  then show ?thesis unfolding ringX_def by (rule returns_result)
qed

lemma ringY_returned:
  "AddAll (NewConsistentHash 1 6 (Some atoiHash)) [[''01'', ''1'']] = Some (Inr ringY)"
proof -
  have "returns (AddAll (NewConsistentHash 1 6 (Some atoiHash)) [[''01'', ''1'']])"
    by code_simp
  then show ?thesis unfolding ringY_def by (rule returns_result)
qed

lemma testMembers_collisionFree:
  "collisionFree (hash ringA) 3 (set (concat [[''6'', ''4'', ''2'']]))"
  unfolding ringA_def result_def by code_simp

text \<open>
  The members 6, 4, 2 in one call, and in two calls in another order.
\<close>

theorem Get_independent_of_insertion_order_witness:
  "Get ringA ''27'' = Get ringB ''27'' \<and> Get ringA ''27'' = Inr ''2''"
proof -
  have same: "set (concat [[''6'', ''4'', ''2'']]) = set (concat [[''2''], [''4'', ''6'']])"
    by auto
  have "Get ringA ''27'' = Inr ''2''"
    unfolding ringA_def result_def by code_simp
  with Get_independent_of_insertion_order [OF ringA_returned ringB_returned same
      testMembers_collisionFree, of "''27''"]
  show ?thesis by simp
qed

text \<open>
  Claim C4 as stated fails when virtual nodes of different members collide: with one replica
  the members 1 and 01 both hash to 1, and the key 1 goes to whichever was added last.
\<close>

theorem Get_insertion_order_counterexample:
  "set (concat [[''1'', ''01'']]) = set (concat [[''01'', ''1'']]) \<and>
   AddAll (NewConsistentHash 1 6 (Some atoiHash)) [[''1'', ''01'']] = Some (Inr ringX) \<and>
   AddAll (NewConsistentHash 1 6 (Some atoiHash)) [[''01'', ''1'']] = Some (Inr ringY) \<and>
   Get ringX ''1'' = Inr ''01'' \<and> Get ringY ''1'' = Inr ''1''"
proof -
  have "Get ringX ''1'' = Inr ''01''" "Get ringY ''1'' = Inr ''1''"
    unfolding ringX_def ringY_def result_def by code_simp+
  moreover have "set (concat [[''1'', ''01'']]) = set (concat [[''01'', ''1'']])"
    by auto
  ultimately show ?thesis
    using ringX_returned ringY_returned by simp
qed

section \<open>GetN\<close>


















end
